theory Spec2Isabelle
  imports
    Complex_Main
    "HOL-Library.Char_ord"
    "HOL-Library.List_Lexorder"
    "HOL-Library.Log_Nat"
    "HOL-Library.Product_Lexorder"
begin

section \<open>RadarSci: query building, relevance scoring, coverage tiers and selection\<close>

text \<open>
  A shallow embedding of the parts of RadarSci that score, classify, order and select
  papers (\<^verbatim>\<open>relevance.py\<close>, \<^verbatim>\<open>cli.py\<close>), of the coverage classifier used for rendering
  (\<^verbatim>\<open>reporting.py\<close>) and of the query builder (\<^verbatim>\<open>fetcher.py\<close>).

  Conventions of the embedding:
  \<^item> a Python \<^verbatim>\<open>str\<close> is a \<open>string\<close>; a \<open>char\<close> stands for the code point of the same
    number, so the strings of the model are those over U+0000 .. U+00FF;
  \<^item> a Python \<^verbatim>\<open>int\<close> is an \<open>int\<close>;
  \<^item> a Python \<^verbatim>\<open>float\<close> is a \<open>rat\<close>, the value of a binary64 double; every operation
    on floats returns the double nearest to its exact result, a tie going to the even
    significand (\<open>fl\<close> below). The exponent is not bounded and there is neither an
    infinity nor a NaN, so the model is that of the doubles of a magnitude from
    \<open>2 ^ - 1022\<close> up to \<open>2 ^ 1024\<close>, and of zero;
  \<^item> an aware UTC \<^verbatim>\<open>datetime\<close> is the number of microseconds since
    0001-01-01T00:00:00, a \<^verbatim>\<open>date\<close> is its proleptic Gregorian ordinal
    (\<^verbatim>\<open>date.toordinal()\<close>, 0001-01-01 is day 1);
  \<^item> a \<^verbatim>\<open>Paper\<close> object is a reference into a store of \<open>Paper\<close> records, since the
    selection compares papers by \<^verbatim>\<open>id\<close>;
  \<^item> an exception is the \<open>Inl\<close> of a sum type.
\<close>

subsection \<open>Strings\<close>

text \<open>\<^verbatim>\<open>str.isspace\<close> on one character, for the code points below 256.\<close>

definition isspace :: "char \<Rightarrow> bool" where
  "isspace c =
     (let n = (of_char c :: nat)
      in (9 \<le> n \<and> n \<le> 13) \<or> (28 \<le> n \<and> n \<le> 32) \<or> n = 133 \<or> n = 160)"

text \<open>\<^verbatim>\<open>str.strip()\<close>: leading and trailing whitespace is removed.\<close>

definition strip :: "string \<Rightarrow> string" where
  "strip s = rev (dropWhile isspace (rev (dropWhile isspace s)))"

text \<open>\<^verbatim>\<open>str.lower()\<close>, character by character, for the code points below 256.\<close>

definition lower_char :: "char \<Rightarrow> char" where
  "lower_char c =
     (let n = (of_char c :: nat)
      in if (65 \<le> n \<and> n \<le> 90) \<or> (192 \<le> n \<and> n \<le> 222 \<and> n \<noteq> 215)
         then char_of (n + 32) else c)"

definition lower :: "string \<Rightarrow> string" where
  "lower s = map lower_char s"

text \<open>
  \<^verbatim>\<open>str.count(sub)\<close>: the number of non-overlapping occurrences of \<open>sub\<close>, scanning
  from the left; the empty string occurs \<open>len + 1\<close> times.
\<close>

function count_str :: "string \<Rightarrow> string \<Rightarrow> nat" where
  "count_str s sub =
     (if sub = [] then length s + 1
      else if length s < length sub then 0
      else if take (length sub) s = sub then 1 + count_str (drop (length sub) s) sub
      else count_str (tl s) sub)"
  by pat_completeness auto
termination
proof (relation "measure (\<lambda>(s, sub). length s)")
  show "wf (measure (\<lambda>(s :: string, sub :: string). length s))"
    by simp
next
  fix s sub :: string
  assume "sub \<noteq> []" and "\<not> length s < length sub"
  then show "((drop (length sub) s, sub), (s, sub)) \<in> measure (\<lambda>(s, sub). length s)"
    by (cases sub; cases s) auto
next
  fix s sub :: string
  assume "sub \<noteq> []" and "\<not> length s < length sub"
  then show "((tl s, sub), (s, sub)) \<in> measure (\<lambda>(s, sub). length s)"
    by (cases sub; cases s) auto
qed

declare count_str.simps [simp del]

text \<open>\<^verbatim>\<open>sep.join(parts)\<close>.\<close>

fun join :: "string \<Rightarrow> string list \<Rightarrow> string" where
  "join sep [] = []"
| "join sep [x] = x"
| "join sep (x # y # ys) = x @ sep @ join sep (y # ys)"

subsection \<open>Data model (\<^verbatim>\<open>models.py\<close>)\<close>

record JournalConfig =
  key :: string
  name :: string
  container_title :: string

record Paper =
  journal :: string
  title :: string
  url :: string
  published :: "int option"
  authors :: "string list"
  summary :: "string option"
  relevance :: rat
  source_score :: "rat option"
  age_days :: "int option"
  match_count :: int

type_synonym ref = nat

type_synonym store = "ref \<Rightarrow> Paper"

datatype SortStrategy = SCORE | RECENCY | JOURNAL

datatype CoverageFilter = ALL_COVERAGE | FULL

subsection \<open>Coverage classification\<close>

text \<open>\<^verbatim>\<open>cli._coverage_level\<close>, the classifier used for bucketing and selection.\<close>

definition coverage_level :: "Paper \<Rightarrow> int \<Rightarrow> string" where
  "coverage_level paper total_keywords =
     (if total_keywords \<le> 0 then (if match_count paper > 0 then ''full'' else ''single'')
      else let matched = max 0 (match_count paper)
           in if matched \<ge> total_keywords then ''full''
              else if total_keywords > 2 \<and> matched \<ge> total_keywords - 1 then ''near''
              else if matched \<ge> 2 then ''partial''
              else if matched \<ge> 1 then ''single''
              else ''single'')"

text \<open>\<^verbatim>\<open>reporting._coverage_level\<close>, the classifier used when a report is rendered.\<close>

definition reporting_coverage_level :: "Paper \<Rightarrow> int \<Rightarrow> string" where
  "reporting_coverage_level paper total_keywords =
     (if total_keywords \<le> 0 then ''unmatched''
      else let matched = max 0 (match_count paper)
           in if matched \<ge> total_keywords then ''full''
              else if total_keywords > 2 \<and> matched \<ge> total_keywords - 1 then ''near''
              else if matched \<ge> 2 then ''partial''
              else if matched \<ge> 1 then ''single''
              else ''unmatched'')"

text \<open>The four levels, in the order in which the selection visits them.\<close>

definition levels :: "string list" where
  "levels = [''full'', ''near'', ''partial'', ''single'']"

subsection \<open>Relevance scoring (\<^verbatim>\<open>relevance.py\<close>)\<close>

definition usec_per_day :: int where
  "usec_per_day = 86400000000"

text \<open>
  \<^verbatim>\<open>(a - b).days\<close> for two datetimes: a \<^verbatim>\<open>timedelta\<close> is normalised so that its
  seconds and microseconds are not negative, hence \<^verbatim>\<open>days\<close> is the floor.
\<close>

definition delta_days :: "int \<Rightarrow> int \<Rightarrow> int" where
  "delta_days a b = (a - b) div usec_per_day"

text \<open>Rounding to the nearest integer, a tie goes to the even neighbour.\<close>

definition round_half_even :: "rat \<Rightarrow> int" where
  "round_half_even x =
     (let f = \<lfloor>x\<rfloor>; d = x - of_int f
      in if d < 1 / 2 then f else if d > 1 / 2 then f + 1 else if even f then f else f + 1)"

text \<open>
  Binary64 arithmetic. A double is \<open>0\<close> or \<open>m * 2 ^ e\<close> or \<open>- m * 2 ^ e\<close> with an integer
  \<open>m\<close>, \<open>2 ^ 52 \<le> m < 2 ^ 53\<close>; \<open>ilog2 x\<close> is the integer part of the binary logarithm
  of a positive \<open>x\<close>, and \<open>fl x\<close> is the double nearest to \<open>x\<close>, a tie going to the
  even significand.
\<close>

definition ilog2 :: "rat \<Rightarrow> int" where
  "ilog2 x = (if 1 \<le> x then bitlen \<lfloor>x\<rfloor> - 1 else - bitlen (\<lceil>1 / x\<rceil> - 1))"

definition fl :: "rat \<Rightarrow> rat" where
  "fl x =
     (if x = 0 then 0
      else let e = ilog2 \<bar>x\<bar> - 52
           in sgn x * of_int (round_half_even (\<bar>x\<bar> / 2 powi e)) * 2 powi e)"

definition fadd :: "rat \<Rightarrow> rat \<Rightarrow> rat" where
  "fadd x y = fl (x + y)"

definition fmul :: "rat \<Rightarrow> rat \<Rightarrow> rat" where
  "fmul x y = fl (x * y)"

definition fdiv :: "rat \<Rightarrow> rat \<Rightarrow> rat" where
  "fdiv x y = fl (x / y)"

text \<open>The conversion of an \<^verbatim>\<open>int\<close> that meets a float in an operation.\<close>

definition float_of_int :: "int \<Rightarrow> rat" where
  "float_of_int n = fl (of_int n)"

text \<open>
  \<^verbatim>\<open>round(x, 2)\<close>: the exact value of \<open>x\<close> is rounded to the nearest hundredth, a tie
  going to the even neighbour, and the result is the double nearest to that.
\<close>

definition round2 :: "rat \<Rightarrow> rat" where
  "round2 x = fl (of_int (round_half_even (x * 100)) / 100)"

text \<open>
  One pass of the loop over the keywords: the state is the running score and the number
  of matched keywords.
\<close>

definition keyword_step :: "string \<Rightarrow> string \<Rightarrow> string \<Rightarrow> rat \<times> int \<Rightarrow> rat \<times> int" where
  "keyword_step title_l text_l keyword acc =
     (case acc of (score, matched_keywords) \<Rightarrow>
        let target = strip (lower keyword)
        in if target = [] then (score, matched_keywords)
           else
             let title_hits = count_str title_l target;
                 score1 = (if title_hits \<noteq> 0
                           then fadd score (fmul 6 (float_of_int (int title_hits))) else score);
                 body_hits = count_str text_l target;
                 score2 = (if body_hits \<noteq> 0
                           then fadd score1 (fmul (5 / 2) (float_of_int (int body_hits)))
                           else score1)
             in (score2,
                 if title_hits \<noteq> 0 \<or> body_hits \<noteq> 0
                 then matched_keywords + 1 else matched_keywords))"

text \<open>
  \<^verbatim>\<open>compute_relevance\<close>. The paper is updated in place by the source; the model returns
  the value returned by the source together with the updated paper. \<open>clock\<close> is what
  \<^verbatim>\<open>datetime.now(tz=UTC)\<close> reads when no reference time is given.
\<close>

definition compute_relevance ::
  "int \<Rightarrow> Paper \<Rightarrow> string list \<Rightarrow> int \<Rightarrow> int option \<Rightarrow> rat \<times> Paper" where
  "compute_relevance clock paper keywords recency_window reference =
     (let now = (case reference of Some t \<Rightarrow> t | None \<Rightarrow> clock);
          text_l = lower (title paper @ '' '' @ (case summary paper of Some s \<Rightarrow> s | None \<Rightarrow> []));
          title_l = lower (title paper);
          (score0, matched_keywords) = fold (keyword_step title_l text_l) keywords (0, 0);
          score1 = (case source_score paper of
                      Some s \<Rightarrow> if s \<noteq> 0 then fadd score0 (fdiv s 10) else score0
                    | None \<Rightarrow> score0);
          score2 = (if matched_keywords \<noteq> 0
                    then fadd score1 (fmul 4 (float_of_int matched_keywords)) else score1);
          age = (case published paper of
                   None \<Rightarrow> None
                 | Some p \<Rightarrow> if delta_days now p \<ge> 0 then Some (delta_days now p) else None);
          score3 = (case age of
                      None \<Rightarrow> score2
                    | Some a \<Rightarrow>
                        let window = max recency_window 30;
                            freshness = max 0 (fl (of_int (window - min a window) / of_int window));
                            decay = fdiv 1 (fadd 1 (float_of_int a))
                        in fadd score2 (fadd (fmul freshness 6) (fmul decay 4)));
          rel = round2 score3
      in (rel, paper\<lparr>age_days := age, match_count := matched_keywords, relevance := rel\<rparr>))"

text \<open>
  The values that the variables \<^verbatim>\<open>title_hits\<close> and \<^verbatim>\<open>body_hits\<close> take in the loop of
  \<^verbatim>\<open>compute_relevance\<close>, for a paper and a keyword.
\<close>

definition title_hits :: "Paper \<Rightarrow> string \<Rightarrow> nat" where
  "title_hits paper keyword = count_str (lower (title paper)) (strip (lower keyword))"

definition body_hits :: "Paper \<Rightarrow> string \<Rightarrow> nat" where
  "body_hits paper keyword =
     count_str (lower (title paper @ '' '' @ (case summary paper of Some s \<Rightarrow> s | None \<Rightarrow> [])))
       (strip (lower keyword))"

subsection \<open>Ordering (\<^verbatim>\<open>cli._sort_papers\<close>)\<close>

definition age_value :: "Paper \<Rightarrow> int" where
  "age_value paper = (case age_days paper of Some a \<Rightarrow> a | None \<Rightarrow> 10 ^ 6)"

text \<open>
  \<^verbatim>\<open>sorted(papers, key=key)\<close> is a stable sort on the key; the keys are tuples, compared
  lexicographically, and strings are compared code point by code point. \<open>sort_key\<close> is
  the stable insertion sort of the list library.
\<close>

definition sort_papers :: "store \<Rightarrow> ref list \<Rightarrow> SortStrategy \<Rightarrow> ref list" where
  "sort_papers h papers strategy =
     (case strategy of
        SCORE \<Rightarrow>
          sort_key (\<lambda>p. (- relevance (h p), age_value (h p), lower (title (h p)))) papers
      | RECENCY \<Rightarrow>
          sort_key (\<lambda>p. (age_value (h p), - relevance (h p), lower (title (h p)))) papers
      | JOURNAL \<Rightarrow>
          sort_key (\<lambda>p. (lower (journal (h p)), - relevance (h p), age_value (h p))) papers)"

subsection \<open>Bucketing (\<^verbatim>\<open>cli._bucket_by_coverage\<close>)\<close>

type_synonym buckets = "string \<rightharpoonup> ref list"

text \<open>\<^verbatim>\<open>buckets.setdefault(level, []).append(paper)\<close>.\<close>

definition bucket_append :: "store \<Rightarrow> int \<Rightarrow> buckets \<Rightarrow> ref \<Rightarrow> buckets" where
  "bucket_append h total_keywords bs paper =
     (let level = coverage_level (h paper) total_keywords
      in bs(level \<mapsto> (case bs level of Some b \<Rightarrow> b | None \<Rightarrow> []) @ [paper]))"

definition bucket_by_coverage :: "store \<Rightarrow> ref list \<Rightarrow> int \<Rightarrow> buckets" where
  "bucket_by_coverage h papers total_keywords =
     (let bs = foldl (bucket_append h total_keywords)
                 [''full'' \<mapsto> [], ''near'' \<mapsto> [], ''partial'' \<mapsto> [], ''single'' \<mapsto> []] papers
      in (\<lambda>level. if level \<in> set levels
                   then (case bs level of Some (x # xs) \<Rightarrow> Some (x # xs) | _ \<Rightarrow> None)
                   else None))"

subsection \<open>Selection (\<^verbatim>\<open>cli.radar\<close>, the part after the fetch)\<close>

text \<open>\<^verbatim>\<open>xs[:n]\<close>: a negative \<open>n\<close> counts from the end.\<close>

definition slice_to :: "'a list \<Rightarrow> int \<Rightarrow> 'a list" where
  "slice_to xs n = (if n \<ge> 0 then take (nat n) xs else take (nat (int (length xs) + n)) xs)"

text \<open>
  The seeding loop: for each level in turn, the head of its bucket is popped and
  appended while there is room.
\<close>

definition seed_step :: "int \<Rightarrow> buckets \<times> ref list \<Rightarrow> string \<Rightarrow> buckets \<times> ref list" where
  "seed_step max_results st level =
     (case st of (temp_buckets, selected) \<Rightarrow>
        (case temp_buckets level of
           Some (x # rest) \<Rightarrow>
             if int (length selected) < max_results
             then (temp_buckets(level \<mapsto> rest), selected @ [x])
             else (temp_buckets, selected)
         | _ \<Rightarrow> (temp_buckets, selected)))"

text \<open>What one seeding step does to the selected list.\<close>

definition seed_pick :: "int \<Rightarrow> buckets \<Rightarrow> ref list \<Rightarrow> string \<Rightarrow> ref list" where
  "seed_pick max_results temp_buckets selected level =
     snd (seed_step max_results (temp_buckets, selected) level)"

text \<open>
  The filling loop over the ordered papers; \<open>seen\<close> is the set of the \<^verbatim>\<open>id\<close>s of the
  papers selected so far, and the loop breaks once the limit is reached.
\<close>

fun fill :: "int \<Rightarrow> ref list \<Rightarrow> ref list \<times> ref set \<Rightarrow> ref list" where
  "fill max_results [] (selected, seen) = selected"
| "fill max_results (paper # rest) (selected, seen) =
     (if int (length selected) \<ge> max_results then selected
      else if paper \<in> seen then fill max_results rest (selected, seen)
      else fill max_results rest (selected @ [paper], insert paper seen))"

definition select_papers :: "ref list \<Rightarrow> buckets \<Rightarrow> CoverageFilter \<Rightarrow> int \<Rightarrow> ref list" where
  "select_papers ordered coverage_buckets coverage_filter max_results =
     (if coverage_filter = FULL
      then slice_to (case coverage_buckets ''full'' of Some b \<Rightarrow> b | None \<Rightarrow> []) max_results
      else
        let (temp_buckets, selected) = foldl (seed_step max_results) (coverage_buckets, []) levels
        in fill max_results ordered (selected, set selected))"

text \<open>Ordering, bucketing and selection of the filtered papers, as \<^verbatim>\<open>radar\<close> chains them.\<close>

definition rank_and_select ::
  "store \<Rightarrow> ref list \<Rightarrow> int \<Rightarrow> SortStrategy \<Rightarrow> CoverageFilter \<Rightarrow> int \<Rightarrow> ref list" where
  "rank_and_select h papers total_keywords sort_strategy coverage_filter max_results =
     (let ordered = sort_papers h papers sort_strategy;
          coverage_buckets = bucket_by_coverage h ordered total_keywords
      in select_papers ordered coverage_buckets coverage_filter max_results)"

subsection \<open>From the fetch results to the selection (\<^verbatim>\<open>cli.radar\<close>)\<close>

datatype EuropePMCFetchResult =
  EuropePMCFetchResult (result_journal: JournalConfig) (result_papers: "Paper list")

text \<open>The papers of all journals in one list, and the names of the journals without papers.\<close>

definition aggregate :: "EuropePMCFetchResult list \<Rightarrow> Paper list \<times> string list" where
  "aggregate journal_chunks =
     foldl (\<lambda>(papers, empty_journals) result.
              if result_papers result \<noteq> [] then (papers @ result_papers result, empty_journals)
              else (papers, empty_journals @ [name (result_journal result)]))
       ([], []) journal_chunks"

text \<open>The test of the filtering loop: \<open>True\<close> when the paper is appended.\<close>

definition keep_paper :: "int \<Rightarrow> Paper \<Rightarrow> bool" where
  "keep_paper days paper =
     (if url paper = [] then False
      else if days > 0 \<and> (case age_days paper of Some a \<Rightarrow> a > days | None \<Rightarrow> False) then False
      else if match_count paper = 0 then False
      else True)"

text \<open>
  Every \<^verbatim>\<open>Paper\<close> is built by its own constructor call in \<^verbatim>\<open>fetch_for_journal\<close>, so the
  objects of the aggregated list are pairwise different: an object is identified by its
  position in that list, and the store maps a position to the paper found there.
\<close>

definition store_of :: "Paper list \<Rightarrow> store" where
  "store_of ps p = ps ! p"

text \<open>
  \<^verbatim>\<open>radar\<close> from the aggregation of the fetch results on: the papers as they are after
  scoring, the filtered papers and the selected papers (both as positions in the first
  list).
\<close>

definition radar_core ::
  "int \<Rightarrow> EuropePMCFetchResult list \<Rightarrow> string list \<Rightarrow> int \<Rightarrow> int \<Rightarrow> SortStrategy
     \<Rightarrow> CoverageFilter \<Rightarrow> Paper list \<times> ref list \<times> ref list" where
  "radar_core now journal_chunks keyword_list days max_results sort_strategy coverage_filter =
     (let (papers, empty_journals) = aggregate journal_chunks;
          recency_window = (if days > 0 then days else 0);
          scored = map (\<lambda>paper. snd (compute_relevance now paper keyword_list recency_window
                                         (Some now))) papers;
          filtered = filter (\<lambda>p. keep_paper days (scored ! p)) [0..<length scored];
          selected = rank_and_select (store_of scored) filtered (int (length keyword_list))
                       sort_strategy coverage_filter max_results
      in (scored, filtered, selected))"

subsection \<open>Query building (\<^verbatim>\<open>fetcher._build_query\<close>)\<close>

datatype error = ValueError string | OverflowError

text \<open>The loop over the keywords: the terms of the query, quoted where they hold a space.\<close>

definition quoted_terms :: "string list \<Rightarrow> string list" where
  "quoted_terms keywords =
     foldl (\<lambda>acc keyword.
              let term = strip keyword
              in if term = [] then acc
                 else if CHR '' '' \<in> set term then acc @ [[CHR 0x22] @ term @ [CHR 0x22]]
                 else acc @ [term])
       [] keywords"

text \<open>
  \<^verbatim>\<open>str(date)\<close> is the ISO 8601 form \<^verbatim>\<open>YYYY-MM-DD\<close>. The year, month and day of an
  ordinal are computed in the usual way, by counting from the first of March of year 0.
\<close>

definition civil_of_ordinal :: "int \<Rightarrow> int \<times> int \<times> int" where
  "civil_of_ordinal n =
     (let z = n + 305;
          era = z div 146097;
          doe = z - era * 146097;
          yoe = (doe - doe div 1460 + doe div 36524 - doe div 146096) div 365;
          doy = doe - (365 * yoe + yoe div 4 - yoe div 100);
          mp = (5 * doy + 2) div 153;
          d = doy - (153 * mp + 2) div 5 + 1;
          m = (if mp < 10 then mp + 3 else mp - 9);
          y = yoe + era * 400 + (if m \<le> 2 then 1 else 0)
      in (y, m, d))"

function str_nat :: "nat \<Rightarrow> string" where
  "str_nat n = (if n < 10 then [char_of (48 + n)] else str_nat (n div 10) @ [char_of (48 + n mod 10)])"
  by pat_completeness auto
termination
  by (relation "measure id") auto

declare str_nat.simps [simp del]

definition zfill :: "nat \<Rightarrow> string \<Rightarrow> string" where
  "zfill width s = replicate (width - length s) (CHR ''0'') @ s"

definition isoformat :: "int \<Rightarrow> string" where
  "isoformat n =
     (case civil_of_ordinal n of (y, m, d) \<Rightarrow>
        zfill 4 (str_nat (nat y)) @ ''-'' @ zfill 2 (str_nat (nat m)) @ ''-''
          @ zfill 2 (str_nat (nat d)))"

text \<open>
  \<^verbatim>\<open>end_date - timedelta(days=days_back)\<close>: a \<^verbatim>\<open>timedelta\<close> holds at most 999999999
  days, and a \<^verbatim>\<open>date\<close> lies between 0001-01-01 (ordinal 1) and 9999-12-31
  (ordinal 3652059); outside of either range Python raises \<^verbatim>\<open>OverflowError\<close>.
\<close>

definition date_minus_days :: "int \<Rightarrow> int \<Rightarrow> error + int" where
  "date_minus_days d days =
     (if \<bar>days\<bar> > 999999999 then Inl OverflowError
      else if 0 < d - days \<and> d - days \<le> 3652059 then Inr (d - days)
      else Inl OverflowError)"

text \<open>
  \<^verbatim>\<open>_build_query\<close>; \<open>today\<close> is the ordinal of \<^verbatim>\<open>datetime.now(tz=UTC).date()\<close>.
\<close>

definition build_query :: "int \<Rightarrow> JournalConfig \<Rightarrow> string list \<Rightarrow> int \<Rightarrow> error + string" where
  "build_query today journal_config keywords days_back =
     (let quoted = quoted_terms keywords
      in if quoted = [] then Inl (ValueError ''At least one keyword is required.'')
         else
           let keyword_query =
                 (if length quoted = 1 then hd quoted
                  else ''('' @ join '' OR '' quoted @ '')'');
               journal_clause = ''JOURNAL:'' @ [CHR 0x22] @ container_title journal_config @ [CHR 0x22];
               segments = [keyword_query, journal_clause]
           in if days_back > 0
              then (case date_minus_days today days_back of
                      Inl e \<Rightarrow> Inl e
                    | Inr start_date \<Rightarrow>
                        Inr (join '' '' (segments @
                          [''FIRST_PDATE:['' @ isoformat start_date @ '' TO ''
                             @ isoformat today @ '']''])))
              else Inr (join '' '' segments))"

subsection \<open>Example inputs\<close>

definition gut_paper :: Paper where
  "gut_paper =
     \<lparr>journal = ''Cell'', title = ''Metagenomics of the gut'', url = ''https://doi.org/10.1/x'',
      published = None, authors = [], summary = None, relevance = 0, source_score = None,
      age_days = None, match_count = 0\<rparr>"

text \<open>Four papers, one in each coverage level when four keywords are looked for.\<close>

definition tier_store :: store where
  "tier_store p = gut_paper\<lparr>match_count := 4 - int p\<rparr>"

text \<open>The fetch results of two journals, and the papers of the second after scoring.\<close>

definition example_chunks :: "EuropePMCFetchResult list" where
  "example_chunks =
     [EuropePMCFetchResult \<lparr>key = ''nature'', name = ''Nature'', container_title = ''Nature''\<rparr> [],
      EuropePMCFetchResult \<lparr>key = ''cell'', name = ''Cell'', container_title = ''Cell''\<rparr>
        [gut_paper\<lparr>title := ''Soil''\<rparr>, gut_paper\<lparr>title := ''Gut''\<rparr>]]"

definition example_scored :: "Paper list" where
  "example_scored =
     [gut_paper\<lparr>title := ''Soil''\<rparr>,
      gut_paper\<lparr>title := ''Gut'', relevance := 25 / 2, match_count := 1\<rparr>]"

text \<open>A journal, and a keyword with a tab between two letters.\<close>

definition cell_journal :: JournalConfig where
  "cell_journal = \<lparr>key = ''cell'', name = ''Cell'', container_title = ''Cell''\<rparr>"

definition tab_keyword :: string where
  "tab_keyword = [CHR ''a'', CHR 0x09, CHR ''b'']"

text \<open>Two papers of equal relevance, the first of unknown age, the second five days old.\<close>

definition age_store :: store where
  "age_store p = (if p = 0 then gut_paper else gut_paper\<lparr>age_days := Some 5\<rparr>)"

text \<open>
  Two papers as the scorer leaves them when the reference time is 1000001 days after
  0001-01-01 (in the year 2738): the first has no publication date, the second was
  published on 0001-01-01.
\<close>

definition old_store :: store where
  "old_store p =
     (if p = 0
      then snd (compute_relevance 0 (gut_paper\<lparr>title := ''Gut''\<rparr>) [''gut''] 30
                  (Some (1000001 * usec_per_day)))
      else snd (compute_relevance 0 (gut_paper\<lparr>title := ''Gut'', published := Some 0\<rparr>)
                  [''gut''] 30 (Some (1000001 * usec_per_day))))"

section \<open>Properties\<close>

subsection \<open>Coverage classification\<close>

lemma coverage_level_in_levels: "coverage_level paper total_keywords \<in> set levels"
  by (simp add: coverage_level_def levels_def Let_def)

text \<open>
  C3, as stated: for every article \<open>A\<close> and keyword list \<open>K\<close>, the empty list included,
  the level of \<open>A\<close> for \<open>|K|\<close> keywords is full whenever \<open>matchCount A \<ge> |K|\<close>. This fails
  for the empty keyword list and an article that matched nothing: \<open>0 \<ge> 0\<close>, and the
  level is single.
\<close>

theorem coverage_level_no_keywords_counterexample:
  "match_count gut_paper \<ge> int (length ([] :: string list))
   \<and> coverage_level gut_paper (int (length ([] :: string list))) = ''single''
   \<and> ''single'' \<noteq> ''full''"
  by (simp add: coverage_level_def gut_paper_def)

text \<open>
  C3, amended: for every article \<open>A\<close> and every keyword list \<open>K\<close>, the empty list
  included, the level of \<open>A\<close> for \<open>|K|\<close> keywords is one of full, near, partial and
  single, and it is full whenever \<open>matchCount A \<ge> |K|\<close> and \<open>matchCount A \<ge> 1\<close>.
\<close>

theorem coverage_level_tiers:
  "coverage_level A (int (length K)) \<in> {''full'', ''near'', ''partial'', ''single''}
   \<and> (match_count A \<ge> int (length K) \<and> match_count A \<ge> 1
        \<longrightarrow> coverage_level A (int (length K)) = ''full'')"
  by (simp add: coverage_level_def Let_def)

theorem coverage_level_tiers_witness:
  "match_count (gut_paper\<lparr>match_count := 1\<rparr>) \<ge> int (length [''metagenomics''])
   \<and> match_count (gut_paper\<lparr>match_count := 1\<rparr>) \<ge> 1
   \<and> coverage_level (gut_paper\<lparr>match_count := 1\<rparr>) (int (length [''metagenomics''])) = ''full''"
  using coverage_level_tiers [of "gut_paper\<lparr>match_count := 1\<rparr>" "[''metagenomics'']"]
  by (simp add: gut_paper_def)

text \<open>
  C9: the classifier of the selection and the classifier of the reports return the same
  level for every article with \<open>matchCount \<ge> 1\<close> and every \<open>totalKeywords \<ge> 1\<close>; where
  \<open>totalKeywords \<le> 0\<close> or \<open>matchCount = 0\<close>, the classifier of the reports returns
  unmatched and the classifier of the selection returns full or single, so the two
  differ there.
\<close>

theorem coverage_levels_agree:
  "(match_count paper \<ge> 1 \<and> total_keywords \<ge> 1
      \<longrightarrow> coverage_level paper total_keywords = reporting_coverage_level paper total_keywords)
   \<and> (total_keywords \<le> 0 \<or> match_count paper = 0
      \<longrightarrow> reporting_coverage_level paper total_keywords = ''unmatched''
          \<and> coverage_level paper total_keywords \<in> {''full'', ''single''}
          \<and> coverage_level paper total_keywords \<noteq> reporting_coverage_level paper total_keywords)"
  by (auto simp add: coverage_level_def reporting_coverage_level_def Let_def)

theorem coverage_levels_agree_witness:
  "match_count (gut_paper\<lparr>match_count := 2\<rparr>) \<ge> 1 \<and> (3 :: int) \<ge> 1
   \<and> coverage_level (gut_paper\<lparr>match_count := 2\<rparr>) 3
       = reporting_coverage_level (gut_paper\<lparr>match_count := 2\<rparr>) 3
   \<and> match_count gut_paper = 0
   \<and> reporting_coverage_level gut_paper 3 = ''unmatched''
   \<and> coverage_level gut_paper 3 \<in> {''full'', ''single''}"
proof -
  have a: "match_count (gut_paper\<lparr>match_count := 2\<rparr>) \<ge> 1 \<and> (3 :: int) \<ge> 1"
    by (simp add: gut_paper_def)
  have b: "(3 :: int) \<le> 0 \<or> match_count gut_paper = 0"
    by (simp add: gut_paper_def)
  show ?thesis
    using a b coverage_levels_agree [of "gut_paper\<lparr>match_count := 2\<rparr>" 3]
      coverage_levels_agree [of gut_paper 3]
    by simp
qed

subsection \<open>Binary64 arithmetic\<close>

subsubsection \<open>Rounding to an integer\<close>

lemma round_half_even_bounds:
  "x - 1 / 2 \<le> of_int (round_half_even x) \<and> of_int (round_half_even x) \<le> x + 1 / 2"
proof -
  define f where "f = \<lfloor>x\<rfloor>"
  define d where "d = x - of_int f"
  have d: "0 \<le> d" "d < 1"
    unfolding d_def f_def by linarith+
  have x: "x = of_int f + d"
    by (simp add: d_def)
  have r: "round_half_even x
      = (if d < 1 / 2 then f else if d > 1 / 2 then f + 1 else if even f then f else f + 1)"
    by (simp add: round_half_even_def Let_def f_def d_def)
  consider "d < 1 / 2" | "d > 1 / 2" | "d = 1 / 2"
    by linarith
  then show ?thesis
  proof cases
    case 1
    then have "round_half_even x = f"
      by (simp add: r)
    then show ?thesis
      using x d 1 by simp
  next
    case 2
    then have "round_half_even x = f + 1"
      by (simp add: r)
    then show ?thesis
      using x d 2 by simp
  next
    case 3
    then have "round_half_even x = f \<or> round_half_even x = f + 1"
      by (simp add: r)
    then show ?thesis
      using x 3 by auto
  qed
qed

lemma round_half_even_near:
  assumes "of_int m - 1 / 2 < x" and "x < of_int m + 1 / 2"
  shows "round_half_even x = m"
proof -
  have "x - 1 / 2 \<le> of_int (round_half_even x)" and "of_int (round_half_even x) \<le> x + 1 / 2"
    using round_half_even_bounds [of x] by simp_all
  then have "(of_int m :: rat) - 1 < of_int (round_half_even x)"
    and "(of_int (round_half_even x) :: rat) < of_int m + 1"
    using assms by linarith+
  then have "m - 1 < round_half_even x" and "round_half_even x < m + 1"
    by (simp_all flip: of_int_less_iff [where 'a = rat])
  then show ?thesis by simp
qed

lemma round_half_even_of_int [simp]: "round_half_even (of_int m) = m"
  by (rule round_half_even_near) simp_all

lemma round_half_even_tie:
  "round_half_even (of_int f + 1 / 2) = (if even f then f else f + 1)"
proof -
  have "\<lfloor>(of_int f :: rat) + 1 / 2\<rfloor> = f"
    by (rule floor_unique) simp_all
  then show ?thesis
    by (simp add: round_half_even_def Let_def)
qed

lemma round_half_even_mono:
  assumes "x \<le> y"
  shows "round_half_even x \<le> round_half_even y"
proof (rule ccontr)
  assume "\<not> round_half_even x \<le> round_half_even y"
  then have "round_half_even y + 1 \<le> round_half_even x"
    by simp
  then have gap: "(of_int (round_half_even y) :: rat) + 1 \<le> of_int (round_half_even x)"
    by (metis of_int_1 of_int_add of_int_le_iff)
  have bx: "of_int (round_half_even x) \<le> x + 1 / 2"
    and "y - 1 / 2 \<le> of_int (round_half_even y)"
    using round_half_even_bounds [of x] round_half_even_bounds [of y] by simp_all
  then have "x = y"
    using gap assms by linarith
  then show False
    using \<open>\<not> round_half_even x \<le> round_half_even y\<close> by simp
qed

subsubsection \<open>The binary logarithm\<close>

lemma ilog2_bounds:
  assumes "0 < x"
  shows "2 powi ilog2 x \<le> x" and "x < 2 powi (ilog2 x + 1)"
proof -
  show "2 powi ilog2 x \<le> x"
  proof (cases "1 \<le> x")
    case True
    then have pos: "0 < \<lfloor>x\<rfloor>"
      by linarith
    then have b: "1 \<le> bitlen \<lfloor>x\<rfloor>"
      by (simp add: bitlen_alt_def)
    have "(2 :: int) ^ nat (bitlen \<lfloor>x\<rfloor> - 1) \<le> \<lfloor>x\<rfloor>"
      using bitlen_bounds [OF pos] by simp
    then have "(of_int ((2 :: int) ^ nat (bitlen \<lfloor>x\<rfloor> - 1)) :: rat) \<le> of_int \<lfloor>x\<rfloor>"
      by (simp only: of_int_le_iff)
    then have "(2 :: rat) ^ nat (bitlen \<lfloor>x\<rfloor> - 1) \<le> of_int \<lfloor>x\<rfloor>"
      by simp
    then have "(2 :: rat) ^ nat (bitlen \<lfloor>x\<rfloor> - 1) \<le> x"
      using of_int_floor_le [of x] by linarith
    moreover have "ilog2 x = int (nat (bitlen \<lfloor>x\<rfloor> - 1))"
      using True b by (simp add: ilog2_def)
    ultimately show ?thesis
      by (simp only: power_int_of_nat)
  next
    case False
    then have x1: "x < 1" by simp
    define c where "c = \<lceil>1 / x\<rceil> - 1"
    have "1 < 1 / x"
      using assms x1 by (simp add: field_simps)
    then have cpos: "0 < c"
      unfolding c_def by linarith
    define n where "n = nat (bitlen c)"
    have "c < 2 ^ n"
      using bitlen_bounds [OF cpos] by (simp add: n_def)
    then have "\<lceil>1 / x\<rceil> \<le> 2 ^ n"
      by (simp add: c_def)
    then have "1 / x \<le> of_int (2 ^ n)"
      by (simp add: ceiling_le_iff)
    then have "1 / x \<le> 2 ^ n"
      by simp
    then have "1 / 2 ^ n \<le> x"
      using assms by (simp add: field_simps)
    moreover have "ilog2 x = - int n"
      using False bitlen_nonneg [of c] by (simp add: ilog2_def c_def n_def)
    ultimately show ?thesis
      by (simp add: power_int_minus_divide)
  qed
  show "x < 2 powi (ilog2 x + 1)"
  proof (cases "1 \<le> x")
    case True
    then have pos: "0 < \<lfloor>x\<rfloor>"
      by linarith
    then have b: "1 \<le> bitlen \<lfloor>x\<rfloor>"
      by (simp add: bitlen_alt_def)
    have "\<lfloor>x\<rfloor> < (2 :: int) ^ nat (bitlen \<lfloor>x\<rfloor>)"
      using bitlen_bounds [OF pos] by simp
    then have "\<lfloor>x\<rfloor> + 1 \<le> (2 :: int) ^ nat (bitlen \<lfloor>x\<rfloor>)"
      by simp
    then have "(of_int (\<lfloor>x\<rfloor> + 1) :: rat) \<le> of_int ((2 :: int) ^ nat (bitlen \<lfloor>x\<rfloor>))"
      by (simp only: of_int_le_iff)
    then have "x < (2 :: rat) ^ nat (bitlen \<lfloor>x\<rfloor>)"
      by simp linarith
    moreover have "ilog2 x + 1 = int (nat (bitlen \<lfloor>x\<rfloor>))"
      using True b by (simp add: ilog2_def)
    ultimately show ?thesis
      by (simp only: power_int_of_nat)
  next
    case False
    then have x1: "x < 1" by simp
    define c where "c = \<lceil>1 / x\<rceil> - 1"
    have "1 < 1 / x"
      using assms x1 by (simp add: field_simps)
    then have cpos: "0 < c"
      unfolding c_def by linarith
    then have b: "1 \<le> bitlen c"
      by (simp add: bitlen_alt_def)
    define n where "n = nat (bitlen c - 1)"
    have "2 ^ n \<le> c"
      using bitlen_bounds [OF cpos] by (simp add: n_def)
    then have "(of_int (2 ^ n) :: rat) \<le> of_int c"
      by (simp only: of_int_le_iff)
    moreover have "(of_int (2 ^ n) :: rat) = 2 ^ n"
      by simp
    moreover have "of_int c < 1 / x"
      unfolding c_def by linarith
    ultimately have "(2 :: rat) ^ n < 1 / x"
      by linarith
    then have "x < 1 / 2 ^ n"
      using assms by (simp add: field_simps)
    moreover have "ilog2 x + 1 = - int n"
      using False b by (simp add: ilog2_def c_def n_def)
    ultimately show ?thesis
      by (simp add: power_int_minus_divide)
  qed
qed

lemma ilog2_unique:
  assumes "2 powi k \<le> x" and "x < 2 powi (k + 1)"
  shows "ilog2 x = k"
proof -
  have pos: "0 < x"
    using assms(1) zero_less_power_int [of "2 :: rat" k] by linarith
  have lt1: "(2 :: rat) powi ilog2 x < 2 powi (k + 1)"
    using ilog2_bounds(1) [OF pos] assms(2) by linarith
  have "ilog2 x < k + 1"
  proof (rule ccontr)
    assume "\<not> ilog2 x < k + 1"
    then have "(2 :: rat) powi (k + 1) \<le> 2 powi ilog2 x"
      by (intro power_int_increasing) simp_all
    then show False
      using lt1 by simp
  qed
  moreover have lt2: "(2 :: rat) powi k < 2 powi (ilog2 x + 1)"
    using ilog2_bounds(2) [OF pos] assms(1) by linarith
  have "k < ilog2 x + 1"
  proof (rule ccontr)
    assume "\<not> k < ilog2 x + 1"
    then have "(2 :: rat) powi (ilog2 x + 1) \<le> 2 powi k"
      by (intro power_int_increasing) simp_all
    then show False
      using lt2 by simp
  qed
  ultimately show ?thesis by simp
qed

subsubsection \<open>Rounding to the nearest double\<close>

lemma two_powi_pos: "0 < (2 :: rat) powi k"
  by simp

lemma two_powi_add: "(2 :: rat) powi (a + b) = 2 powi a * 2 powi b"
  by (simp add: power_int_add)

lemma two_powi_diff: "(2 :: rat) powi (a - b) = 2 powi a / 2 powi b"
  by (simp add: power_int_diff)

lemma two_powi_le: "a \<le> b \<Longrightarrow> (2 :: rat) powi a \<le> 2 powi b"
  by (rule power_int_increasing) simp_all

lemma two_powi_less_cancel:
  assumes "(2 :: rat) powi a < 2 powi b"
  shows "a < b"
proof (rule ccontr)
  assume "\<not> a < b"
  then have "(2 :: rat) powi b \<le> 2 powi a"
    by (intro two_powi_le) simp
  then show False
    using assms by simp
qed

lemma fl_zero [simp]: "fl 0 = 0"
  by (simp add: fl_def)

lemma fl_minus: "fl (- x) = - fl x"
  by (simp add: fl_def Let_def)

lemma fl_pos:
  assumes "0 < x"
  shows "fl x = of_int (round_half_even (x / 2 powi (ilog2 x - 52))) * 2 powi (ilog2 x - 52)"
  using assms by (simp add: fl_def Let_def)

lemma fl_pos_eqI:
  assumes "2 powi (e + 52) \<le> x" and "x < 2 powi (e + 53)"
    and "round_half_even (x / 2 powi e) = m"
  shows "fl x = of_int m * 2 powi e"
proof -
  have pos: "0 < x"
    using assms(1) two_powi_pos [of "e + 52"] by linarith
  have "x < 2 powi ((e + 52) + 1)"
    using assms(2) by (simp add: add.assoc)
  then have "ilog2 x = e + 52"
    using assms(1) by (intro ilog2_unique)
  then show ?thesis
    using pos assms(3) by (simp add: fl_pos)
qed

lemma fl_significand_bounds:
  assumes "0 < x"
  shows "2 ^ 52 \<le> round_half_even (x / 2 powi (ilog2 x - 52))"
    and "round_half_even (x / 2 powi (ilog2 x - 52)) \<le> 2 ^ 53"
proof -
  define e where "e = ilog2 x - 52"
  define z where "z = x / 2 powi e"
  have e1: "e + 52 = ilog2 x" and e2: "e + 53 = ilog2 x + 1"
    by (simp_all add: e_def)
  have "2 powi (e + 52) \<le> x" and "x < 2 powi (e + 53)"
    unfolding e1 e2 by (rule ilog2_bounds [OF assms])+
  then have "2 powi e * 2 powi 52 \<le> x" and "x < 2 powi e * 2 powi 53"
    by (simp_all only: two_powi_add)
  then have z: "2 ^ 52 \<le> z" "z < 2 ^ 53"
    by (simp_all add: z_def field_simps)
  have "round_half_even (of_int (2 ^ 52)) \<le> round_half_even z"
    by (rule round_half_even_mono) (use z in simp)
  then show "2 ^ 52 \<le> round_half_even (x / 2 powi (ilog2 x - 52))"
    by (simp only: round_half_even_of_int z_def e_def)
  have "round_half_even z \<le> round_half_even (of_int (2 ^ 53))"
    by (rule round_half_even_mono) (use z in simp)
  then show "round_half_even (x / 2 powi (ilog2 x - 52)) \<le> 2 ^ 53"
    by (simp only: round_half_even_of_int z_def e_def)
qed

lemma fl_pos_range:
  assumes "0 < x"
  shows "2 powi ilog2 x \<le> fl x" and "fl x \<le> 2 powi (ilog2 x + 1)"
proof -
  define e where "e = ilog2 x - 52"
  define m where "m = round_half_even (x / 2 powi e)"
  have f: "fl x = of_int m * 2 powi e"
    using assms by (simp add: fl_pos m_def e_def)
  have "2 ^ 52 \<le> m" and "m \<le> 2 ^ 53"
    using fl_significand_bounds [OF assms] by (simp_all add: m_def e_def)
  then have "(of_int (2 ^ 52) :: rat) \<le> of_int m" and "(of_int m :: rat) \<le> of_int (2 ^ 53)"
    by (simp_all only: of_int_le_iff)
  then have m: "(2 :: rat) powi 52 \<le> of_int m" "(of_int m :: rat) \<le> 2 powi 53"
    by simp_all
  have e1: "ilog2 x = 52 + e" and e2: "ilog2 x + 1 = 53 + e"
    by (simp_all add: e_def)
  have "2 powi ilog2 x = (2 :: rat) powi 52 * 2 powi e"
    by (simp only: e1 two_powi_add)
  also have "\<dots> \<le> of_int m * 2 powi e"
    by (rule mult_right_mono [OF m(1)]) simp
  finally show "2 powi ilog2 x \<le> fl x"
    by (simp add: f)
  have "of_int m * 2 powi e \<le> (2 :: rat) powi 53 * 2 powi e"
    by (rule mult_right_mono [OF m(2)]) simp
  also have "\<dots> = 2 powi (ilog2 x + 1)"
    by (simp only: e2 two_powi_add)
  finally show "fl x \<le> 2 powi (ilog2 x + 1)"
    by (simp add: f)
qed

lemma fl_nonneg: "0 \<le> x \<Longrightarrow> 0 \<le> fl x"
proof (cases "x = 0")
  case False
  assume "0 \<le> x"
  then have "0 < x"
    using False by simp
  then have "2 powi ilog2 x \<le> fl x"
    by (rule fl_pos_range)
  then show ?thesis
    using two_powi_pos [of "ilog2 x"] by linarith
qed simp

lemma ilog2_mono:
  assumes "0 < x" and "x \<le> y"
  shows "ilog2 x \<le> ilog2 y"
proof -
  have "0 < y"
    using assms by simp
  then have "(2 :: rat) powi ilog2 x < 2 powi (ilog2 y + 1)"
    using ilog2_bounds(1) [OF assms(1)] ilog2_bounds(2) [of y] assms(2) by linarith
  then have "ilog2 x < ilog2 y + 1"
    by (rule two_powi_less_cancel)
  then show ?thesis by simp
qed

lemma fl_mono_pos:
  assumes "0 < x" and "x \<le> y"
  shows "fl x \<le> fl y"
proof -
  have y: "0 < y"
    using assms by simp
  have le: "ilog2 x \<le> ilog2 y"
    using assms by (rule ilog2_mono)
  show ?thesis
  proof (cases "ilog2 x = ilog2 y")
    case True
    have "x / 2 powi (ilog2 y - 52) \<le> y / 2 powi (ilog2 y - 52)"
      using assms(2) by (simp add: divide_right_mono)
    then have "round_half_even (x / 2 powi (ilog2 y - 52))
        \<le> round_half_even (y / 2 powi (ilog2 y - 52))"
      by (rule round_half_even_mono)
    then have "(of_int (round_half_even (x / 2 powi (ilog2 y - 52))) :: rat)
        \<le> of_int (round_half_even (y / 2 powi (ilog2 y - 52)))"
      by (simp only: of_int_le_iff)
    then have "of_int (round_half_even (x / 2 powi (ilog2 y - 52))) * 2 powi (ilog2 y - 52)
        \<le> of_int (round_half_even (y / 2 powi (ilog2 y - 52))) * (2 :: rat) powi (ilog2 y - 52)"
      by (intro mult_right_mono) simp_all
    then show ?thesis
      using assms(1) y True by (simp add: fl_pos)
  next
    case False
    then have "ilog2 x + 1 \<le> ilog2 y"
      using le by simp
    then have "(2 :: rat) powi (ilog2 x + 1) \<le> 2 powi ilog2 y"
      by (rule two_powi_le)
    then show ?thesis
      using fl_pos_range(2) [OF assms(1)] fl_pos_range(1) [OF y] by linarith
  qed
qed

lemma fl_mono:
  assumes "x \<le> y"
  shows "fl x \<le> fl y"
proof -
  consider "0 < x" | "x \<le> 0" "0 \<le> y" | "y < 0"
    using assms by linarith
  then show ?thesis
  proof cases
    case 1
    then show ?thesis
      using assms by (rule fl_mono_pos)
  next
    case 2
    have "0 \<le> fl (- x)" and "0 \<le> fl y"
      using 2 by (simp_all add: fl_nonneg)
    then show ?thesis
      by (simp add: fl_minus)
  next
    case 3
    then have "fl (- y) \<le> fl (- x)"
      using assms by (intro fl_mono_pos) simp_all
    then show ?thesis
      by (simp add: fl_minus)
  qed
qed

lemma fl_error_pos:
  assumes "0 < x"
  shows "\<bar>fl x - x\<bar> \<le> 2 powi (ilog2 x - 53)"
proof -
  define e where "e = ilog2 x - 52"
  define z where "z = x / 2 powi e"
  have x: "x = z * 2 powi e"
    by (simp add: z_def)
  have f: "fl x = of_int (round_half_even z) * 2 powi e"
    using assms by (simp add: fl_pos z_def e_def)
  have "\<bar>of_int (round_half_even z) - z\<bar> \<le> 1 / 2"
    using round_half_even_bounds [of z] by linarith
  then have "\<bar>of_int (round_half_even z) - z\<bar> * 2 powi e \<le> 1 / 2 * 2 powi e"
    by (intro mult_right_mono) simp_all
  moreover have "fl x - x = (of_int (round_half_even z) - z) * 2 powi e"
    by (simp add: f z_def algebra_simps)
  then have "\<bar>fl x - x\<bar> = \<bar>of_int (round_half_even z) - z\<bar> * 2 powi e"
    by (simp add: abs_mult)
  moreover have "(2 :: rat) powi (ilog2 x - 53) = 1 / 2 * 2 powi e"
    by (simp add: e_def two_powi_diff)
  ultimately show ?thesis
    by linarith
qed

lemma fl_error_small:
  assumes "\<bar>x\<bar> < 2 ^ 52"
  shows "\<bar>fl x - x\<bar> \<le> 1 / 4"
proof -
  have pos: "\<bar>fl y - y\<bar> \<le> 1 / 4" if "0 < y" and "y < 2 ^ 52" for y
  proof -
    have "(2 :: rat) powi ilog2 y < 2 powi 52"
      using ilog2_bounds(1) [OF that(1)] that(2) by simp
    then have "ilog2 y < 52"
      by (rule two_powi_less_cancel)
    then have "(2 :: rat) powi (ilog2 y - 53) \<le> 2 powi (- 2)"
      by (intro two_powi_le) simp
    then show ?thesis
      using fl_error_pos [OF that(1)] by (simp add: power_int_minus_divide)
  qed
  consider "0 < x" | "x = 0" | "x < 0"
    by linarith
  then show ?thesis
  proof cases
    case 1
    then show ?thesis
      using assms by (intro pos) simp_all
  next
    case 2
    then show ?thesis by simp
  next
    case 3
    then have "\<bar>fl (- x) - (- x)\<bar> \<le> 1 / 4"
      using assms by (intro pos) simp_all
    then show ?thesis
      unfolding fl_minus by linarith
  qed
qed

lemma fl_exact_pos:
  assumes "0 < n" and "n < 2 ^ 53"
  shows "fl (of_int n * 2 powi k) = of_int n * 2 powi k"
proof -
  define x :: rat where "x = of_int n * 2 powi k"
  define e where "e = ilog2 x - 52"
  have pos: "0 < x"
    using assms(1) by (simp add: x_def)
  have "(of_int n :: rat) < of_int (2 ^ 53)"
    using assms(2) by (simp only: of_int_less_iff)
  then have "(of_int n :: rat) < 2 powi 53"
    by simp
  then have "x < 2 powi 53 * 2 powi k"
    unfolding x_def by (intro mult_strict_right_mono) simp_all
  moreover have "2 powi (e + 52) \<le> x"
    using ilog2_bounds(1) [OF pos] by (simp add: e_def)
  ultimately have "(2 :: rat) powi (e + 52) < 2 powi (53 + k)"
    by (simp add: two_powi_add)
  then have "e + 52 < 53 + k"
    by (rule two_powi_less_cancel)
  then have "0 \<le> k - e"
    by simp
  then obtain j where j: "k - e = int j"
    using nonneg_int_cases by blast
  have "x / 2 powi e = of_int n * 2 powi (k - e)"
    by (simp add: x_def two_powi_diff)
  also have "\<dots> = of_int (n * 2 ^ j)"
    by (simp add: j)
  finally have "round_half_even (x / 2 powi e) = n * 2 ^ j"
    by (simp only: round_half_even_of_int)
  then have "fl x = of_int (n * 2 ^ j) * 2 powi e"
    using pos by (simp add: fl_pos e_def)
  also have "\<dots> = of_int n * (2 powi (k - e) * 2 powi e)"
    by (simp add: j)
  also have "\<dots> = x"
    by (simp add: x_def flip: two_powi_add)
  finally show ?thesis
    by (simp add: x_def)
qed

lemma fl_exact:
  assumes "\<bar>n\<bar> < 2 ^ 53"
  shows "fl (of_int n * 2 powi k) = of_int n * 2 powi k"
proof -
  consider "0 < n" | "n = 0" | "n < 0"
    by linarith
  then show ?thesis
  proof cases
    case 1
    then show ?thesis
      using assms by (intro fl_exact_pos) simp_all
  next
    case 2
    then show ?thesis by simp
  next
    case 3
    then have "fl (of_int (- n) * 2 powi k) = of_int (- n) * 2 powi k"
      using assms by (intro fl_exact_pos) simp_all
    then show ?thesis
      by (simp add: fl_minus)
  qed
qed

lemma fl_of_int:
  assumes "\<bar>n\<bar> < 2 ^ 53"
  shows "fl (of_int n) = of_int n"
  using fl_exact [OF assms, of 0] by simp

lemma fl_half_int:
  assumes "x * 2 \<in> \<int>" and "\<bar>x\<bar> < 2 ^ 52"
  shows "fl x = x"
proof -
  from assms(1) obtain n where n: "x * 2 = of_int n"
    by (auto elim: Ints_cases)
  then have x: "x = of_int n * 2 powi (- 1)"
    by (simp add: power_int_minus_divide field_simps)
  have "\<bar>(of_int n :: rat)\<bar> < 2 ^ 53"
    using assms(2) n [symmetric] by (simp add: abs_mult)
  then have "(of_int \<bar>n\<bar> :: rat) < of_int (2 ^ 53)"
    by simp
  then have "\<bar>n\<bar> < 2 ^ 53"
    by (simp only: of_int_less_iff)
  then show ?thesis
    unfolding x by (rule fl_exact)
qed

lemma fl_one [simp]: "fl 1 = 1"
  using fl_of_int [of 1] by simp

lemma fl_numeral_small: "numeral n < (2 :: int) ^ 53 \<Longrightarrow> fl (numeral n) = numeral n"
  using fl_of_int [of "numeral n"] by simp

lemma fl_nearI:
  assumes "2 powi (e + 52) \<le> x" and "x < 2 powi (e + 53)"
    and "of_int m - 1 / 2 < x / 2 powi e" and "x / 2 powi e < of_int m + 1 / 2"
  shows "fl x = of_int m * 2 powi e"
  using assms(1,2) round_half_even_near [OF assms(3,4)] by (rule fl_pos_eqI)

lemma fl_tieI:
  assumes "2 powi (e + 52) \<le> x" and "x < 2 powi (e + 53)"
    and "x / 2 powi e = of_int f + 1 / 2"
  shows "fl x = of_int (if even f then f else f + 1) * 2 powi e"
proof -
  have "round_half_even (x / 2 powi e) = (if even f then f else f + 1)"
    unfolding assms(3) by (rule round_half_even_tie)
  with assms(1,2) show ?thesis
    by (rule fl_pos_eqI)
qed


subsubsection \<open>Concrete roundings\<close>

text \<open>
  The doubles met in the examples below. Each is found from its exponent and its
  significand: \<open>fl x = m * 2 ^ e\<close> when \<open>2 ^ (e + 52) \<le> x < 2 ^ (e + 53)\<close> and \<open>m\<close> is the
  integer nearest to \<open>x / 2 ^ e\<close>.
\<close>

lemma round_half_even_zero: "round_half_even 0 = 0"
  using round_half_even_of_int [of 0] by simp

lemma round_half_even_numeral: "round_half_even (numeral n) = numeral n"
  using round_half_even_of_int [of "numeral n"] by simp

lemma fl_2_3: "fl (2 / 3) = 6004799503160661 / 9007199254740992"
  using fl_nearI [of "- 53" "2 / 3" 6004799503160661] by simp

lemma fl_freshness_6: "fl (18014398509481983 / 4503599627370496) = 4"
  using fl_tieI [of "- 51" "18014398509481983 / 4503599627370496" 9007199254740991] by simp

lemma fl_1_11: "fl (1 / 11) = 3275345183542179 / 36028797018963968"
  using fl_nearI [of "- 56" "1 / 11" 6550690367084358] by simp

lemma fl_decay_4: "fl (3275345183542179 / 9007199254740992) = 3275345183542179 / 9007199254740992"
  using fl_nearI [of "- 54" "3275345183542179 / 9007199254740992" 6550690367084358] by simp

lemma fl_recency: "fl (39304142202506147 / 9007199254740992) = 1228254443828317 / 281474976710656"
  using fl_nearI [of "- 50" "39304142202506147 / 9007199254740992" 4913017775313268] by simp

lemma fl_scenario_sum: "fl (4746691652711517 / 281474976710656) = 4746691652711517 / 281474976710656"
  using fl_nearI [of "- 48" "4746691652711517 / 281474976710656" 4746691652711517] by simp

lemma round_half_even_scenario: "round_half_even (118667291317787925 / 70368744177664) = 1686"
  by (rule round_half_even_near) simp_all

lemma fl_843_50: "fl (843 / 50) = 1186417026835415 / 70368744177664"
  using fl_nearI [of "- 48" "843 / 50" 4745668107341660] by simp

lemma fl_17_2: "fl (17 / 2) = 17 / 2"
  using fl_nearI [of "- 49" "17 / 2" 4785074604081152] by simp

lemma fl_25_2: "fl (25 / 2) = 25 / 2"
  using fl_nearI [of "- 49" "25 / 2" 7036874417766400] by simp

lemma fl_5_2: "fl (5 / 2) = 5 / 2"
  using fl_nearI [of "- 51" "5 / 2" 5629499534213120] by simp

lemma fl_1e17: "fl (100000000000000000) = 100000000000000000"
  using fl_nearI [of "4" "100000000000000000" 6250000000000000] by simp

lemma fl_1e17_17_2: "fl (200000000000000017 / 2) = 100000000000000016"
  using fl_nearI [of "4" "200000000000000017 / 2" 6250000000000001] by simp

lemma fl_1e17_17: "fl (100000000000000017) = 100000000000000016"
  using fl_nearI [of "4" "100000000000000017" 6250000000000001] by simp

lemma fl_1e17_20: "fl (100000000000000020) = 100000000000000016"
  using fl_nearI [of "4" "100000000000000020" 6250000000000001] by simp

lemma fl_1e17_16: "fl (100000000000000016) = 100000000000000016"
  using fl_nearI [of "4" "100000000000000016" 6250000000000001] by simp

lemma fl_1_1000002: "fl (1 / 1000002) = 4722357038155569 / 4722366482869645213696"
  using fl_nearI [of "- 72" "1 / 1000002" 4722357038155569] by simp

lemma fl_old_decay_4: "fl (4722357038155569 / 1180591620717411303424) = 4722357038155569 / 1180591620717411303424"
  using fl_nearI [of "- 70" "4722357038155569 / 1180591620717411303424" 4722357038155569] by simp

lemma fl_old_sum: "fl (14757399981324679448369 / 1180591620717411303424) = 3518438334780855 / 281474976710656"
  using fl_nearI [of "- 49" "14757399981324679448369 / 1180591620717411303424" 7036876669561710] by simp

lemma round_half_even_old: "round_half_even (87960958369521375 / 70368744177664) = 1250"
  by (rule round_half_even_near) simp_all

lemma fl_107_40: "fl (107 / 40) = 3011782250804019 / 1125899906842624"
  using fl_nearI [of "- 51" "107 / 40" 6023564501608038] by simp

lemma fl_external_tenth: "fl (3011782250804019 / 1125899906842624) = 3011782250804019 / 1125899906842624"
  using fl_nearI [of "- 51" "3011782250804019 / 1125899906842624" 6023564501608038] by simp

lemma round_half_even_external: "round_half_even (75294556270100475 / 281474976710656) = 267"
  by (rule round_half_even_near) simp_all

lemma fl_267_100: "fl (267 / 100) = 1503076375634903 / 562949953421312"
  using fl_nearI [of "- 51" "267 / 100" 6012305502539612] by simp

lemmas fl_ops = fadd_def fmul_def fdiv_def float_of_int_def round2_def

lemmas fl_values = fl_numeral_small round_half_even_zero round_half_even_numeral
  fl_2_3 fl_freshness_6 fl_1_11 fl_decay_4 fl_recency fl_scenario_sum round_half_even_scenario
  fl_843_50 fl_17_2 fl_25_2 fl_5_2 fl_1e17 fl_1e17_17_2 fl_1e17_17 fl_1e17_20 fl_1e17_16
  fl_1_1000002 fl_old_decay_4 fl_old_sum round_half_even_old fl_107_40 fl_external_tenth
  round_half_even_external fl_267_100

subsection \<open>Scoring\<close>

text \<open>
  C2: for the single keyword "metagenomics", an article titled "Metagenomics of the gut"
  with an empty summary (absent or the empty string), without an external score and
  published exactly ten days before the reference time, scoring with a recency window of
  30 days returns 16.86, that is the double nearest to \<open>1686 / 100\<close>
  (\<open>1186417026835415 / 2 ^ 46\<close>), which is \<open>6 + 2.5 + 4 + (20 / 30) * 6 + (1 / 11) * 4\<close>
  rounded to two decimals, and sets \<open>age_days\<close> to 10 and \<open>match_count\<close> to 1.
\<close>

theorem scenario_metagenomics:
  assumes "title p = ''Metagenomics of the gut''"
    and "summary p = None \<or> summary p = Some []"
    and "source_score p = None"
    and "published p = Some (now - 10 * usec_per_day)"
  shows "compute_relevance clock p [''metagenomics''] 30 (Some now)
           = (fl (1686 / 100),
              p\<lparr>age_days := Some 10, match_count := 1, relevance := fl (1686 / 100)\<rparr>)
         \<and> round2 (6 + 5 / 2 + 4 + (20 / 30) * 6 + (1 / 11) * 4) = fl (1686 / 100)
         \<and> fl (1686 / 100) = 1186417026835415 / 2 ^ 46"
proof -
  have t: "lower ''Metagenomics of the gut'' = ''metagenomics of the gut''"
    by code_simp
  have t2: "lower (''Metagenomics of the gut'' @ '' '' @ []) = ''metagenomics of the gut ''"
    by code_simp
  have k: "strip (lower ''metagenomics'') = ''metagenomics''"
    by code_simp
  have c1: "count_str ''metagenomics of the gut'' ''metagenomics'' = 1"
    by code_simp
  have c2: "count_str ''metagenomics of the gut '' ''metagenomics'' = 1"
    by code_simp
  have d: "delta_days now (now - 10 * usec_per_day) = 10"
    by (simp add: delta_days_def usec_per_day_def)
  have r: "round2 (371 / 22) = fl (1686 / 100)"
  proof -
    have "round_half_even (371 / 22 * 100) = 1686"
      by (rule round_half_even_near) simp_all
    then show ?thesis
      by (simp add: round2_def)
  qed
  have text_eq: "lower (title p @ '' '' @ (case summary p of Some s \<Rightarrow> s | None \<Rightarrow> []))
      = ''metagenomics of the gut ''"
    using assms(1,2) t2 by auto
  have step: "keyword_step ''metagenomics of the gut'' ''metagenomics of the gut ''
      ''metagenomics'' (0, 0) = (17 / 2, 1)"
    by (simp add: keyword_step_def k c1 c2 Let_def fl_ops fl_values)
  have "compute_relevance clock p [''metagenomics''] 30 (Some now)
      = (fl (1686 / 100),
         p\<lparr>age_days := Some 10, match_count := 1, relevance := fl (1686 / 100)\<rparr>)"
    unfolding compute_relevance_def text_eq
    unfolding assms(1,3,4) t
    by (simp add: step d Let_def fl_ops fl_values)
  then show ?thesis
    using r by (simp add: fl_843_50)
qed

theorem scenario_metagenomics_witness:
  "title (gut_paper\<lparr>published := Some 0\<rparr>) = ''Metagenomics of the gut''
   \<and> summary (gut_paper\<lparr>published := Some 0\<rparr>) = None
   \<and> source_score (gut_paper\<lparr>published := Some 0\<rparr>) = None
   \<and> compute_relevance 0 (gut_paper\<lparr>published := Some 0\<rparr>) [''metagenomics''] 30
         (Some (10 * usec_per_day))
       = (fl (1686 / 100),
          gut_paper\<lparr>published := Some 0, age_days := Some 10, match_count := 1,
            relevance := fl (1686 / 100)\<rparr>)"
  using scenario_metagenomics [of "gut_paper\<lparr>published := Some 0\<rparr>" "10 * usec_per_day" 0]
  by (simp add: gut_paper_def)

lemma fold_keyword_step_matched:
  "m \<le> snd (fold (keyword_step title_l text_l) ks (s, m))"
proof (induction ks arbitrary: s m)
  case Nil
  then show ?case by simp
next
  case (Cons k ks)
  obtain s1 m1 where step: "keyword_step title_l text_l k (s, m) = (s1, m1)"
    by (cases "keyword_step title_l text_l k (s, m)")
  then have "m \<le> m1"
    by (auto simp add: keyword_step_def Let_def split: if_splits)
  moreover have "m1 \<le> snd (fold (keyword_step title_l text_l) ks (s1, m1))"
    by (rule Cons.IH)
  ultimately show ?case
    by (simp add: step)
qed

lemma compute_relevance_match_count: "0 \<le> match_count (snd (compute_relevance c paper ks w r))"
  using fold_keyword_step_matched [of 0 _ _ ks 0]
  by (simp add: compute_relevance_def Let_def split_beta)

lemma compute_relevance_url: "url (snd (compute_relevance c paper ks w r)) = url paper"
  by (simp add: compute_relevance_def Let_def split_beta)

lemma half_int_add: "x * 2 \<in> \<int> \<Longrightarrow> y * 2 \<in> \<int> \<Longrightarrow> (x + y) * 2 \<in> (\<int> :: rat set)"
  by (simp add: distrib_right)

lemma half_int_of_nat:
  assumes "c * 2 \<in> (\<int> :: rat set)"
  shows "c * of_nat n * 2 \<in> (\<int> :: rat set)"
proof -
  have "c * 2 * of_nat n \<in> \<int>"
    by (rule Ints_mult [OF assms Ints_of_nat])
  moreover have "c * of_nat n * 2 = c * 2 * of_nat n"
    by simp
  ultimately show ?thesis
    by (simp only:)
qed

lemma keyword_step_exact:
  assumes "s * 2 \<in> \<int>" and "0 \<le> s"
    and "s + 6 * of_nat (count_str ti (strip (lower k)))
           + (5 / 2) * of_nat (count_str tx (strip (lower k))) < 2 ^ 52"
  shows "keyword_step ti tx k (s, m) =
     (if strip (lower k) = [] then (s, m)
      else (s + 6 * of_nat (count_str ti (strip (lower k)))
              + (5 / 2) * of_nat (count_str tx (strip (lower k))),
            if count_str ti (strip (lower k)) \<noteq> 0 \<or> count_str tx (strip (lower k)) \<noteq> 0
            then m + 1 else m))"
proof -
  define t b :: rat where "t = of_nat (count_str ti (strip (lower k)))"
    and "b = of_nat (count_str tx (strip (lower k)))"
  have nn: "0 \<le> t" "0 \<le> b"
    by (simp_all add: t_def b_def)
  have small: "s + 6 * t + (5 / 2) * b < 2 ^ 52"
    using assms(3) by (simp only: t_def b_def)
  have t0: "t = 0 \<longleftrightarrow> count_str ti (strip (lower k)) = 0"
    and b0: "b = 0 \<longleftrightarrow> count_str tx (strip (lower k)) = 0"
    by (simp_all add: t_def b_def)
  have ht: "t * 2 \<in> \<int>" and hb: "b * 2 \<in> \<int>"
    by (simp_all add: t_def b_def)
  have h6: "6 * t * 2 \<in> \<int>"
    unfolding t_def by (rule half_int_of_nat) simp
  have h52: "5 / 2 * b * 2 \<in> \<int>"
    unfolding b_def by (rule half_int_of_nat) simp
  have h1: "(s + 6 * t) * 2 \<in> \<int>"
    using assms(1) h6 by (rule half_int_add)
  have h2: "(s + 6 * t + 5 / 2 * b) * 2 \<in> \<int>"
    using h1 h52 by (rule half_int_add)
  have h2': "(s + 5 / 2 * b) * 2 \<in> \<int>"
    using assms(1) h52 by (rule half_int_add)
  have bt: "\<bar>t\<bar> < 2 ^ 52" and bb: "\<bar>b\<bar> < 2 ^ 52" and b6: "\<bar>6 * t\<bar> < 2 ^ 52"
    and b52: "\<bar>5 / 2 * b\<bar> < 2 ^ 52" and b1: "\<bar>s + 6 * t\<bar> < 2 ^ 52"
    and b2: "\<bar>s + 6 * t + 5 / 2 * b\<bar> < 2 ^ 52" and b2': "\<bar>s + 5 / 2 * b\<bar> < 2 ^ 52"
    using nn small assms(2) by linarith+
  have "fl t = t"
    using ht bt by (rule fl_half_int)
  then have ft: "float_of_int (int (count_str ti (strip (lower k)))) = t"
    by (simp add: float_of_int_def t_def)
  have "fl b = b"
    using hb bb by (rule fl_half_int)
  then have fb: "float_of_int (int (count_str tx (strip (lower k)))) = b"
    by (simp add: float_of_int_def b_def)
  have m6: "fmul 6 t = 6 * t"
    unfolding fmul_def using h6 b6 by (rule fl_half_int)
  have m52: "fmul (5 / 2) b = 5 / 2 * b"
    unfolding fmul_def using h52 b52 by (rule fl_half_int)
  have a1: "fadd s (6 * t) = s + 6 * t"
    unfolding fadd_def using h1 b1 by (rule fl_half_int)
  have a2: "fadd (s + 6 * t) (5 / 2 * b) = s + 6 * t + 5 / 2 * b"
    unfolding fadd_def using h2 b2 by (rule fl_half_int)
  have a2': "fadd s (5 / 2 * b) = s + 5 / 2 * b"
    unfolding fadd_def using h2' b2' by (rule fl_half_int)
  show ?thesis
    unfolding keyword_step_def Let_def ft fb m6 m52
    using a1 a2 a2' by (auto simp add: t_def [symmetric] b_def [symmetric] t0 [symmetric] b0 [symmetric])
qed

lemma keyword_step_compare:
  fixes N :: nat
  assumes "count_str ti (strip (lower k)) \<le> count_str ti' (strip (lower k))"
    and "count_str tx (strip (lower k)) \<le> count_str tx' (strip (lower k))"
    and "count_str ti' (strip (lower k)) \<le> N" and "count_str tx' (strip (lower k)) \<le> N"
    and "m \<le> m'" and "s * 2 \<in> \<int>" and "s' * 2 \<in> \<int>" and "0 \<le> s" and "s \<le> s'"
    and "s' + 17 / 2 * of_nat N < 2 ^ 52"
    and "keyword_step ti tx k (s, m) = (s1, m1)"
    and "keyword_step ti' tx' k (s', m') = (s1', m1')"
  shows "s1 * 2 \<in> \<int>" and "s1' * 2 \<in> \<int>" and "s \<le> s1" and "s1 \<le> s1'"
    and "s1' \<le> s' + 17 / 2 * of_nat N" and "s' - s \<le> s1' - s1"
    and "m1 \<le> m1'" and "m1' \<le> m' + 1"
    and "strip (lower k) \<noteq> []
         \<and> (count_str ti (strip (lower k)) < count_str ti' (strip (lower k))
            \<or> count_str tx (strip (lower k)) < count_str tx' (strip (lower k)))
         \<longrightarrow> s' - s + 5 / 2 \<le> s1' - s1"
proof -
  define t b t' b' where "t = count_str ti (strip (lower k))"
    and "b = count_str tx (strip (lower k))"
    and "t' = count_str ti' (strip (lower k))" and "b' = count_str tx' (strip (lower k))"
  have le: "t \<le> t'" "b \<le> b'" "t' \<le> N" "b' \<le> N"
    using assms(1-4) by (simp_all add: t_def b_def t'_def b'_def)
  have r: "(of_nat t :: rat) \<le> of_nat t'" "(of_nat b :: rat) \<le> of_nat b'"
    "(of_nat t' :: rat) \<le> of_nat N" "(of_nat b' :: rat) \<le> of_nat N"
    using le by (simp_all only: of_nat_le_iff)
  have nn: "(0 :: rat) \<le> of_nat t" "(0 :: rat) \<le> of_nat b"
    by simp_all
  have "s + 6 * of_nat t + 5 / 2 * of_nat b < 2 ^ 52"
    using r nn assms(9,10) by linarith
  then have st: "keyword_step ti tx k (s, m) =
     (if strip (lower k) = [] then (s, m)
      else (s + 6 * of_nat t + 5 / 2 * of_nat b, if t \<noteq> 0 \<or> b \<noteq> 0 then m + 1 else m))"
    unfolding t_def b_def by (intro keyword_step_exact assms(6,8))
  have "s' + 6 * of_nat t' + 5 / 2 * of_nat b' < 2 ^ 52"
    using r nn assms(10) by linarith
  moreover have "0 \<le> s'"
    using assms(8,9) by simp
  ultimately have st': "keyword_step ti' tx' k (s', m') =
     (if strip (lower k) = [] then (s', m')
      else (s' + 6 * of_nat t' + 5 / 2 * of_nat b', if t' \<noteq> 0 \<or> b' \<noteq> 0 then m' + 1 else m'))"
    unfolding t'_def b'_def by (intro keyword_step_exact assms(7))
  have s1: "s1 = (if strip (lower k) = [] then s else s + 6 * of_nat t + 5 / 2 * of_nat b)"
    and m1: "m1 = (if strip (lower k) = [] then m else if t \<noteq> 0 \<or> b \<noteq> 0 then m + 1 else m)"
    using st assms(11) by (auto split: if_splits)
  have s1': "s1' = (if strip (lower k) = [] then s' else s' + 6 * of_nat t' + 5 / 2 * of_nat b')"
    and m1': "m1' = (if strip (lower k) = [] then m' else if t' \<noteq> 0 \<or> b' \<noteq> 0 then m' + 1 else m')"
    using st' assms(12) by (auto split: if_splits)
  have h: "(6 * of_nat n + 5 / 2 * of_nat j) * 2 \<in> (\<int> :: rat set)" for n j :: nat
    by (intro half_int_add half_int_of_nat) simp_all
  have "(s + (6 * of_nat t + 5 / 2 * of_nat b)) * 2 \<in> \<int>"
    using assms(6) h by (rule half_int_add)
  then show "s1 * 2 \<in> \<int>"
    using assms(6) by (simp add: s1 add.assoc)
  have "(s' + (6 * of_nat t' + 5 / 2 * of_nat b')) * 2 \<in> \<int>"
    using assms(7) h by (rule half_int_add)
  then show "s1' * 2 \<in> \<int>"
    using assms(7) by (simp add: s1' add.assoc)
  show "s \<le> s1"
    using nn by (simp add: s1)
  show "s1 \<le> s1'"
    using r assms(9) by (simp add: s1 s1')
  show "s1' \<le> s' + 17 / 2 * of_nat N"
    using r by (simp add: s1')
  show "s' - s \<le> s1' - s1"
    using r by (simp add: s1 s1')
  show "m1 \<le> m1'"
    using le assms(5) by (auto simp add: m1 m1')
  show "m1' \<le> m' + 1"
    by (simp add: m1')
  show "strip (lower k) \<noteq> []
         \<and> (count_str ti (strip (lower k)) < count_str ti' (strip (lower k))
            \<or> count_str tx (strip (lower k)) < count_str tx' (strip (lower k)))
         \<longrightarrow> s' - s + 5 / 2 \<le> s1' - s1"
  proof
    assume a: "strip (lower k) \<noteq> []
         \<and> (count_str ti (strip (lower k)) < count_str ti' (strip (lower k))
            \<or> count_str tx (strip (lower k)) < count_str tx' (strip (lower k)))"
    then have "t + 1 \<le> t' \<or> b + 1 \<le> b'"
      by (auto simp add: t_def b_def t'_def b'_def)
    then have "(of_nat (t + 1) :: rat) \<le> of_nat t' \<or> (of_nat (b + 1) :: rat) \<le> of_nat b'"
      by (simp only: of_nat_le_iff)
    then have "(of_nat t :: rat) + 1 \<le> of_nat t' \<or> (of_nat b :: rat) + 1 \<le> of_nat b'"
      by (simp add: add.commute)
    then have "(6 * of_nat t + 5 / 2 * of_nat b :: rat) + 5 / 2 \<le> 6 * of_nat t' + 5 / 2 * of_nat b'"
      using r by linarith
    then show "s' - s + 5 / 2 \<le> s1' - s1"
      using a by (simp add: s1 s1')
  qed
qed

lemma fold_keyword_step_compare:
  fixes N :: nat
  assumes "\<forall>k\<in>set ks. count_str ti (strip (lower k)) \<le> count_str ti' (strip (lower k))
                      \<and> count_str tx (strip (lower k)) \<le> count_str tx' (strip (lower k))
                      \<and> count_str ti' (strip (lower k)) \<le> N
                      \<and> count_str tx' (strip (lower k)) \<le> N"
    and "m \<le> m'" and "s * 2 \<in> \<int>" and "s' * 2 \<in> \<int>" and "0 \<le> s" and "s \<le> s'"
    and "s' + 17 / 2 * of_nat N * of_nat (length ks) < 2 ^ 52"
  shows "s \<le> fst (fold (keyword_step ti tx) ks (s, m))
    \<and> fst (fold (keyword_step ti' tx') ks (s', m')) \<le> s' + 17 / 2 * of_nat N * of_nat (length ks)
    \<and> s' - s \<le> fst (fold (keyword_step ti' tx') ks (s', m'))
                    - fst (fold (keyword_step ti tx) ks (s, m))
    \<and> snd (fold (keyword_step ti tx) ks (s, m)) \<le> snd (fold (keyword_step ti' tx') ks (s', m'))
    \<and> snd (fold (keyword_step ti' tx') ks (s', m')) \<le> m' + int (length ks)
    \<and> ((\<exists>k\<in>set ks. strip (lower k) \<noteq> []
           \<and> (count_str ti (strip (lower k)) < count_str ti' (strip (lower k))
              \<or> count_str tx (strip (lower k)) < count_str tx' (strip (lower k))))
        \<longrightarrow> s' - s + 5 / 2 \<le> fst (fold (keyword_step ti' tx') ks (s', m'))
                                  - fst (fold (keyword_step ti tx) ks (s, m)))"
  using assms
proof (induction ks arbitrary: s m s' m')
  case Nil
  then show ?case by simp
next
  case (Cons a ks)
  define B :: rat where "B = 17 / 2 * of_nat N"
  have B: "0 \<le> B"
    by (simp add: B_def)
  have "B * of_nat (length (a # ks)) = B + B * of_nat (length ks)"
    by (simp add: algebra_simps)
  then have room: "s' + B + B * of_nat (length ks) < 2 ^ 52"
    using Cons.prems(7) unfolding B_def [symmetric] by simp
  have "0 \<le> B * of_nat (length ks)"
    using B by simp
  then have room1: "s' + 17 / 2 * of_nat N < 2 ^ 52"
    using room unfolding B_def [symmetric] by simp
  obtain s1 m1 where st: "keyword_step ti tx a (s, m) = (s1, m1)"
    by (cases "keyword_step ti tx a (s, m)")
  obtain s1' m1' where st': "keyword_step ti' tx' a (s', m') = (s1', m1')"
    by (cases "keyword_step ti' tx' a (s', m')")
  have a: "count_str ti (strip (lower a)) \<le> count_str ti' (strip (lower a))"
    "count_str tx (strip (lower a)) \<le> count_str tx' (strip (lower a))"
    "count_str ti' (strip (lower a)) \<le> N" "count_str tx' (strip (lower a)) \<le> N"
    using Cons.prems(1) by simp_all
  have rest: "\<forall>k\<in>set ks. count_str ti (strip (lower k)) \<le> count_str ti' (strip (lower k))
                      \<and> count_str tx (strip (lower k)) \<le> count_str tx' (strip (lower k))
                      \<and> count_str ti' (strip (lower k)) \<le> N
                      \<and> count_str tx' (strip (lower k)) \<le> N"
    using Cons.prems(1) by simp
  note step = keyword_step_compare [OF a Cons.prems(2-6) room1 st st']
  have room': "s1' + 17 / 2 * of_nat N * of_nat (length ks) < 2 ^ 52"
    using step(5) room unfolding B_def [symmetric] by simp
  have nn1: "0 \<le> s1"
    using step(3) Cons.prems(5) by simp
  note IH = Cons.IH [OF rest step(7) step(1) step(2) nn1 step(4) room', of ]
  define x x' where "x = fst (fold (keyword_step ti tx) ks (s1, m1))"
    and "x' = fst (fold (keyword_step ti' tx') ks (s1', m1'))"
  define y y' where "y = snd (fold (keyword_step ti tx) ks (s1, m1))"
    and "y' = snd (fold (keyword_step ti' tx') ks (s1', m1'))"
  have i1: "s1 \<le> x" and i2: "x' \<le> s1' + B * of_nat (length ks)" and i3: "s1' - s1 \<le> x' - x"
    and i4: "y \<le> y'" and i5: "y' \<le> m1' + int (length ks)"
    and i6: "(\<exists>k\<in>set ks. strip (lower k) \<noteq> []
           \<and> (count_str ti (strip (lower k)) < count_str ti' (strip (lower k))
              \<or> count_str tx (strip (lower k)) < count_str tx' (strip (lower k))))
        \<longrightarrow> s1' - s1 + 5 / 2 \<le> x' - x"
    using IH unfolding B_def [symmetric] by (simp_all add: x_def x'_def y_def y'_def)
  have f: "fold (keyword_step ti tx) (a # ks) (s, m) = (x, y)"
    "fold (keyword_step ti' tx') (a # ks) (s', m') = (x', y')"
    by (simp_all add: st st' x_def x'_def y_def y'_def)
  have c1: "s \<le> x"
    using i1 step(3) by simp
  have c2: "x' \<le> s' + 17 / 2 * of_nat N * of_nat (length (a # ks))"
    using i2 step(5) \<open>B * of_nat (length (a # ks)) = B + B * of_nat (length ks)\<close>
    unfolding B_def [symmetric] by simp
  have c3: "s' - s \<le> x' - x"
    using i3 step(6) by simp
  have c5: "y' \<le> m' + int (length (a # ks))"
    using i5 step(8) by simp
  have c6: "(\<exists>k\<in>set (a # ks). strip (lower k) \<noteq> []
           \<and> (count_str ti (strip (lower k)) < count_str ti' (strip (lower k))
              \<or> count_str tx (strip (lower k)) < count_str tx' (strip (lower k))))
        \<longrightarrow> s' - s + 5 / 2 \<le> x' - x"
  proof
    assume "\<exists>k\<in>set (a # ks). strip (lower k) \<noteq> []
           \<and> (count_str ti (strip (lower k)) < count_str ti' (strip (lower k))
              \<or> count_str tx (strip (lower k)) < count_str tx' (strip (lower k)))"
    then consider "strip (lower a) \<noteq> []
           \<and> (count_str ti (strip (lower a)) < count_str ti' (strip (lower a))
              \<or> count_str tx (strip (lower a)) < count_str tx' (strip (lower a)))"
      | "\<exists>k\<in>set ks. strip (lower k) \<noteq> []
           \<and> (count_str ti (strip (lower k)) < count_str ti' (strip (lower k))
              \<or> count_str tx (strip (lower k)) < count_str tx' (strip (lower k)))"
      by auto
    then show "s' - s + 5 / 2 \<le> x' - x"
    proof cases
      case 1
      then have "s' - s + 5 / 2 \<le> s1' - s1"
        using step(9) by blast
      then show ?thesis
        using i3 by simp
    next
      case 2
      then have "s1' - s1 + 5 / 2 \<le> x' - x"
        using i6 by blast
      then show ?thesis
        using step(6) by simp
    qed
  qed
  show ?case
    unfolding f fst_conv snd_conv using c1 c2 c3 i4 c5 c6 by blast
qed

lemma opt_fadd_error:
  assumes "\<bar>x + v\<bar> < 2 ^ 52" and "\<not> c \<Longrightarrow> v = 0"
  shows "\<bar>(if c then fadd x v else x) - (x + v)\<bar> \<le> 1 / 4"
proof (cases c)
  case True
  then show ?thesis
    using fl_error_small [OF assms(1)] by (simp add: fadd_def)
next
  case False
  then show ?thesis
    using assms(2) by simp
qed

lemma recency_bounds:
  assumes "0 \<le> a" and "30 \<le> w"
  shows "0 \<le> fadd (fmul (max 0 (fl (of_int (w - min a w) / of_int w))) 6)
                 (fmul (fdiv 1 (fadd 1 (float_of_int a))) 4)"
    and "fadd (fmul (max 0 (fl (of_int (w - min a w) / of_int w))) 6)
           (fmul (fdiv 1 (fadd 1 (float_of_int a))) 4) \<le> 10"
proof -
  define q :: rat where "q = of_int (w - min a w) / of_int w"
  define f where "f = max 0 (fl q)"
  define y where "y = fadd 1 (float_of_int a)"
  define d where "d = fdiv 1 y"
  have "0 \<le> q" and "q \<le> 1"
    using assms by (simp_all add: q_def)
  then have "fl q \<le> fl 1"
    by (intro fl_mono)
  then have f: "0 \<le> f" "f \<le> 1"
    by (simp_all add: f_def)
  then have "fl 0 \<le> fl (f * 6)" and "fl (f * 6) \<le> fl 6"
    by (intro fl_mono; simp)+
  then have f6: "0 \<le> fmul f 6" "fmul f 6 \<le> 6"
    by (simp_all add: fmul_def fl_numeral_small)
  have "0 \<le> fl (of_int a)"
    using assms(1) by (intro fl_nonneg) simp
  then have "fl 1 \<le> fl (1 + fl (of_int a))"
    by (intro fl_mono) simp
  then have y: "1 \<le> y"
    by (simp add: y_def fadd_def float_of_int_def)
  then have "0 \<le> 1 / y" and "1 / y \<le> 1"
    by simp_all
  then have "fl 0 \<le> fl (1 / y)" and "fl (1 / y) \<le> fl 1"
    by (intro fl_mono; simp)+
  then have d: "0 \<le> d" "d \<le> 1"
    by (simp_all add: d_def fdiv_def)
  then have "fl 0 \<le> fl (d * 4)" and "fl (d * 4) \<le> fl 4"
    by (intro fl_mono; simp)+
  then have d4: "0 \<le> fmul d 4" "fmul d 4 \<le> 4"
    by (simp_all add: fmul_def fl_numeral_small)
  have "fl 0 \<le> fl (fmul f 6 + fmul d 4)" and "fl (fmul f 6 + fmul d 4) \<le> fl 10"
    using f6 d4 by (intro fl_mono; simp)+
  then have "0 \<le> fadd (fmul f 6) (fmul d 4)" and "fadd (fmul f 6) (fmul d 4) \<le> 10"
    by (simp_all add: fadd_def fl_numeral_small)
  then show "0 \<le> fadd (fmul (max 0 (fl (of_int (w - min a w) / of_int w))) 6)
                 (fmul (fdiv 1 (fadd 1 (float_of_int a))) 4)"
    and "fadd (fmul (max 0 (fl (of_int (w - min a w) / of_int w))) 6)
           (fmul (fdiv 1 (fadd 1 (float_of_int a))) 4) \<le> 10"
    by (simp_all add: f_def q_def d_def y_def)
qed

lemma round2_strict:
  assumes "x + 1 \<le> y" and "\<bar>x\<bar> \<le> 2 ^ 51" and "\<bar>y\<bar> \<le> 2 ^ 51"
  shows "round2 x < round2 y"
proof -
  define i j :: rat where "i = of_int (round_half_even (x * 100))"
    and "j = of_int (round_half_even (y * 100))"
  have i: "x * 100 - 1 / 2 \<le> i" "i \<le> x * 100 + 1 / 2"
    using round_half_even_bounds [of "x * 100"] by (simp_all add: i_def)
  have j: "y * 100 - 1 / 2 \<le> j" "j \<le> y * 100 + 1 / 2"
    using round_half_even_bounds [of "y * 100"] by (simp_all add: j_def)
  have p: "(2 :: rat) ^ 52 = 2 * 2 ^ 51"
    by simp
  have bi: "\<bar>i / 100\<bar> < 2 ^ 52" and bj: "\<bar>j / 100\<bar> < 2 ^ 52"
    using i j assms(2,3) unfolding p by (simp_all add: abs_le_iff abs_less_iff)
  have "\<bar>fl (i / 100) - i / 100\<bar> \<le> 1 / 4" and "\<bar>fl (j / 100) - j / 100\<bar> \<le> 1 / 4"
    using bi bj by (simp_all only: fl_error_small)
  moreover have "i / 100 + 99 / 100 \<le> j / 100"
    using i j assms(1) by simp
  ultimately have "fl (i / 100) < fl (j / 100)"
    by linarith
  then show ?thesis
    by (simp add: round2_def i_def j_def)
qed

lemma keyword_step_gut:
  "keyword_step ''gut'' ''gut '' ''gut'' (0, 0) = (17 / 2, 1)"
proof -
  have k: "strip (lower ''gut'') = ''gut''"
    by code_simp
  have c: "count_str ''gut'' ''gut'' = 1" "count_str ''gut '' ''gut'' = 1"
    by code_simp+
  show ?thesis
    by (simp add: keyword_step_def Let_def k c fl_ops fl_values)
qed

lemma keyword_step_gut_gut:
  "keyword_step ''gut gut'' ''gut gut '' ''gut'' (0, 0) = (17, 1)"
proof -
  have k: "strip (lower ''gut'') = ''gut''"
    by code_simp
  have c: "count_str ''gut gut'' ''gut'' = 2" "count_str ''gut gut '' ''gut'' = 2"
    by code_simp+
  show ?thesis
    by (simp add: keyword_step_def Let_def k c fl_ops fl_values)
qed

lemma keyword_step_soil:
  "keyword_step ''soil'' ''soil '' ''gut'' (0, 0) = (0, 0)"
proof -
  have k: "strip (lower ''gut'') = ''gut''"
    by code_simp
  have c: "count_str ''soil'' ''gut'' = 0" "count_str ''soil '' ''gut'' = 0"
    by code_simp+
  show ?thesis
    by (simp add: keyword_step_def Let_def k c)
qed

lemma lower_titles:
  "lower ''Gut'' = ''gut''" "lower ''Gut '' = ''gut ''"
  "lower ''Gut gut'' = ''gut gut''" "lower ''Gut gut '' = ''gut gut ''"
  "lower ''Soil'' = ''soil''" "lower ''Soil '' = ''soil ''"
  by code_simp+

lemma old_store_values:
  "old_store 0 = gut_paper\<lparr>title := ''Gut'', relevance := 25 / 2, match_count := 1\<rparr>"
  "old_store (Suc 0) = gut_paper\<lparr>title := ''Gut'', published := Some 0, relevance := 25 / 2,
     age_days := Some 1000001, match_count := 1\<rparr>"
  by (simp_all add: old_store_def compute_relevance_def gut_paper_def lower_titles keyword_step_gut
      Let_def delta_days_def usec_per_day_def fl_ops fl_values)

lemma example_scored_values:
  "snd (compute_relevance 0 (gut_paper\<lparr>title := ''Soil''\<rparr>) [''gut''] 30 (Some 0))
     = gut_paper\<lparr>title := ''Soil''\<rparr>"
  "snd (compute_relevance 0 (gut_paper\<lparr>title := ''Gut''\<rparr>) [''gut''] 30 (Some 0))
     = gut_paper\<lparr>title := ''Gut'', relevance := 25 / 2, match_count := 1\<rparr>"
  by (simp_all add: compute_relevance_def gut_paper_def lower_titles keyword_step_gut
      keyword_step_soil Let_def fl_ops fl_values)

text \<open>
  An external score of 26.75 alone: the tenth of it is the double just below 2.675, and
  the relevance is 2.67.
\<close>

lemma external_score_rounding:
  "fst (compute_relevance 0 (gut_paper\<lparr>title := ''Soil'', source_score := Some (107 / 4)\<rparr>)
          [''gut''] 30 None) = fl (267 / 100)"
  by (simp add: compute_relevance_def gut_paper_def lower_titles keyword_step_soil Let_def
      fl_ops fl_values)

text \<open>
  C6, as stated: more occurrences of a keyword, everything else unchanged, give a
  strictly higher relevance. The running score is a double: an external score of
  \<open>10 ^ 18\<close> adds \<open>10 ^ 17\<close>, where neighbouring doubles are 16 apart, so that
  \<open>10 ^ 17 + 8.5\<close> (one occurrence in the title) and \<open>10 ^ 17 + 17\<close> (two occurrences)
  both round to \<open>10 ^ 17 + 16\<close>, and the two articles get the same relevance.
\<close>

theorem more_hits_absorbed_counterexample:
  "title_hits (gut_paper\<lparr>title := ''Gut'', source_score := Some (10 ^ 18)\<rparr>) ''gut'' = 1
   \<and> title_hits (gut_paper\<lparr>title := ''Gut gut'', source_score := Some (10 ^ 18)\<rparr>) ''gut'' = 2
   \<and> body_hits (gut_paper\<lparr>title := ''Gut'', source_score := Some (10 ^ 18)\<rparr>) ''gut'' = 1
   \<and> body_hits (gut_paper\<lparr>title := ''Gut gut'', source_score := Some (10 ^ 18)\<rparr>) ''gut'' = 2
   \<and> fst (compute_relevance 0 (gut_paper\<lparr>title := ''Gut'', source_score := Some (10 ^ 18)\<rparr>)
            [''gut''] 30 None) = 100000000000000016
   \<and> fst (compute_relevance 0 (gut_paper\<lparr>title := ''Gut gut'', source_score := Some (10 ^ 18)\<rparr>)
            [''gut''] 30 None) = 100000000000000016"
proof -
  have t: "title_hits (gut_paper\<lparr>title := ''Gut'', source_score := Some (10 ^ 18)\<rparr>) ''gut'' = 1"
    "title_hits (gut_paper\<lparr>title := ''Gut gut'', source_score := Some (10 ^ 18)\<rparr>) ''gut'' = 2"
    unfolding title_hits_def gut_paper_def by code_simp+
  have b: "body_hits (gut_paper\<lparr>title := ''Gut'', source_score := Some (10 ^ 18)\<rparr>) ''gut'' = 1"
    "body_hits (gut_paper\<lparr>title := ''Gut gut'', source_score := Some (10 ^ 18)\<rparr>) ''gut'' = 2"
    unfolding body_hits_def gut_paper_def by code_simp+
  have "fst (compute_relevance 0 (gut_paper\<lparr>title := ''Gut'', source_score := Some (10 ^ 18)\<rparr>)
            [''gut''] 30 None) = 100000000000000016"
    by (simp add: compute_relevance_def gut_paper_def lower_titles keyword_step_gut Let_def
        fl_ops fl_values)
  moreover have "fst (compute_relevance 0
      (gut_paper\<lparr>title := ''Gut gut'', source_score := Some (10 ^ 18)\<rparr>) [''gut''] 30 None)
      = 100000000000000016"
    by (simp add: compute_relevance_def gut_paper_def lower_titles keyword_step_gut_gut Let_def
        fl_ops fl_values)
  ultimately show ?thesis
    using t b by simp
qed

text \<open>
  C6, amended: for every article, keyword list, recency window and reference time, more
  occurrences of one keyword in the title (\<open>title_hits\<close>) or in the title and summary
  (\<open>body_hits\<close>), everything else unchanged, give a strictly higher relevance, also
  after the rounding to two decimals, provided that there are at most \<open>10 ^ 6\<close>
  keywords, that no keyword occurs more than \<open>10 ^ 6\<close> times in the title or in the
  title and summary of the article with more occurrences, and that the external score,
  if there is one, is at most \<open>10 ^ 12\<close> in absolute value. The two papers \<open>p\<close> and \<open>p'\<close>
  have the same external score and publication date and the same hits for every other
  keyword; for the keyword \<open>k\<close> neither count is lower in \<open>p'\<close> and one is higher.
  Within these bounds the sum over the keywords is computed without rounding, and the
  three roundings that follow move each score by at most a quarter.
\<close>

theorem more_hits_higher_score:
  assumes "source_score p' = source_score p" and "published p' = published p"
    and "k \<in> set ks" and "strip (lower k) \<noteq> []"
    and "\<forall>k'\<in>set ks. strip (lower k') \<noteq> strip (lower k) \<longrightarrow>
           title_hits p' k' = title_hits p k' \<and> body_hits p' k' = body_hits p k'"
    and "title_hits p k \<le> title_hits p' k" and "body_hits p k \<le> body_hits p' k"
    and "title_hits p k < title_hits p' k \<or> body_hits p k < body_hits p' k"
    and "length ks \<le> 10 ^ 6"
    and "\<forall>k'\<in>set ks. title_hits p' k' \<le> 10 ^ 6 \<and> body_hits p' k' \<le> 10 ^ 6"
    and "\<forall>s. source_score p = Some s \<longrightarrow> \<bar>s\<bar> \<le> 10 ^ 12"
  shows "fst (compute_relevance clock p ks recency_window reference)
           < fst (compute_relevance clock p' ks recency_window reference)"
proof -
  define now where "now = (case reference of Some t \<Rightarrow> t | None \<Rightarrow> clock)"
  define ti where "ti = (\<lambda>q :: Paper. lower (title q))"
  define tx where
    "tx = (\<lambda>q :: Paper. lower (title q @ '' '' @ (case summary q of Some s \<Rightarrow> s | None \<Rightarrow> [])))"
  define F where "F = (\<lambda>q. fold (keyword_step (ti q) (tx q)) ks (0, 0))"
  define age where "age = (case published p of
                   None \<Rightarrow> None
                 | Some d \<Rightarrow> if delta_days now d \<ge> 0 then Some (delta_days now d) else None)"
  define c1 where "c1 = (case source_score p of Some s \<Rightarrow> s \<noteq> 0 | None \<Rightarrow> False)"
  define v1 where "v1 = (case source_score p of Some s \<Rightarrow> fdiv s 10 | None \<Rightarrow> 0)"
  define x1 where "x1 = (\<lambda>q. if c1 then fadd (fst (F q)) v1 else fst (F q))"
  define v2 :: "Paper \<Rightarrow> rat" where "v2 = (\<lambda>q. 4 * of_int (snd (F q)))"
  define x2 where "x2 = (\<lambda>q. if snd (F q) \<noteq> 0 then fadd (x1 q) (v2 q) else x1 q)"
  define v3 where "v3 = (case age of
      None \<Rightarrow> 0
    | Some a \<Rightarrow>
        fadd (fmul (max 0 (fl (of_int (max recency_window 30 - min a (max recency_window 30))
                                 / of_int (max recency_window 30)))) 6)
          (fmul (fdiv 1 (fadd 1 (float_of_int a))) 4))"
  define x3 where "x3 = (\<lambda>q. if age \<noteq> None then fadd (x2 q) v3 else x2 q)"
  have hits: "\<forall>k'\<in>set ks. count_str (ti p) (strip (lower k')) \<le> count_str (ti p') (strip (lower k'))
                      \<and> count_str (tx p) (strip (lower k')) \<le> count_str (tx p') (strip (lower k'))
                      \<and> count_str (ti p') (strip (lower k')) \<le> 10 ^ 6
                      \<and> count_str (tx p') (strip (lower k')) \<le> 10 ^ 6"
  proof
    fix k'
    assume k': "k' \<in> set ks"
    then have b: "title_hits p' k' \<le> 10 ^ 6 \<and> body_hits p' k' \<le> 10 ^ 6"
      using assms(10) by blast
    have "title_hits p k' \<le> title_hits p' k' \<and> body_hits p k' \<le> body_hits p' k'"
    proof (cases "strip (lower k') = strip (lower k)")
      case True
      then show ?thesis
        using assms(6,7) by (simp add: title_hits_def body_hits_def)
    next
      case False
      then have "title_hits p' k' = title_hits p k' \<and> body_hits p' k' = body_hits p k'"
        using assms(5) k' by blast
      then show ?thesis
        by simp
    qed
    then show "count_str (ti p) (strip (lower k')) \<le> count_str (ti p') (strip (lower k'))
        \<and> count_str (tx p) (strip (lower k')) \<le> count_str (tx p') (strip (lower k'))
        \<and> count_str (ti p') (strip (lower k')) \<le> 10 ^ 6
        \<and> count_str (tx p') (strip (lower k')) \<le> 10 ^ 6"
      using b by (simp add: title_hits_def body_hits_def ti_def tx_def)
  qed
  have strict: "\<exists>k\<in>set ks. strip (lower k) \<noteq> []
      \<and> (count_str (ti p) (strip (lower k)) < count_str (ti p') (strip (lower k))
         \<or> count_str (tx p) (strip (lower k)) < count_str (tx p') (strip (lower k)))"
    using assms(3,4,8) by (auto simp add: title_hits_def body_hits_def ti_def tx_def)
  have len: "(of_nat (length ks) :: rat) \<le> 10 ^ 6"
  proof -
    have "(of_nat (length ks) :: rat) \<le> of_nat (10 ^ 6)"
      using assms(9) by (simp only: of_nat_le_iff)
    then show ?thesis by simp
  qed
  then have "17 / 2 * of_nat (10 ^ 6) * (of_nat (length ks) :: rat) \<le> 17 / 2 * of_nat (10 ^ 6) * 10 ^ 6"
    by (intro mult_left_mono) simp_all
  then have room: "(0 :: rat) + 17 / 2 * of_nat (10 ^ 6) * of_nat (length ks) < 2 ^ 52"
    by simp
  have int0: "(0 :: rat) * 2 \<in> \<int>"
    by simp
  note cmp = fold_keyword_step_compare [OF hits order_refl int0 int0 order_refl order_refl room,
      of 0]
  have x0: "0 \<le> fst (F p)" and x0': "fst (F p') \<le> 17 / 2 * 10 ^ 12"
    and gap0: "fst (F p) + 5 / 2 \<le> fst (F p')"
    and m: "snd (F p) \<le> snd (F p')" and m': "snd (F p') \<le> 10 ^ 6"
  proof -
    show "0 \<le> fst (F p)"
      using cmp by (simp add: F_def)
    have "fst (F p') \<le> 17 / 2 * of_nat (10 ^ 6) * of_nat (length ks)"
      using cmp by (simp add: F_def)
    moreover have "17 / 2 * of_nat (10 ^ 6) * (of_nat (length ks) :: rat) \<le> 17 / 2 * 10 ^ 12"
      using len by simp
    ultimately show "fst (F p') \<le> 17 / 2 * 10 ^ 12"
      by linarith
    show "fst (F p) + 5 / 2 \<le> fst (F p')"
      using cmp strict by (simp add: F_def)
    show "snd (F p) \<le> snd (F p')"
      using cmp by (simp add: F_def)
    have "snd (F p') \<le> int (length ks)"
      using cmp by (simp add: F_def)
    then show "snd (F p') \<le> 10 ^ 6"
      using assms(9) by simp
  qed
  have m0: "0 \<le> snd (F q)" for q
    unfolding F_def by (rule fold_keyword_step_matched)
  have p52: "(2 :: rat) ^ 52 = 4503599627370496" and p51: "(2 :: rat) ^ 51 = 2251799813685248"
    by simp_all
  have x0b: "0 \<le> fst (F q)" "fst (F q) \<le> 8500000000000" if "q = p \<or> q = p'" for q
    using that x0 x0' gap0 by auto
  have mb: "0 \<le> snd (F q) \<and> snd (F q) \<le> 10 ^ 6" if "q = p \<or> q = p'" for q
    using that m m' m0 [of q] by auto
  have v1: "\<bar>v1\<bar> \<le> 100000000000 + 1 / 4"
  proof (cases "source_score p")
    case None
    then show ?thesis
      by (simp add: v1_def)
  next
    case (Some s)
    then have "\<bar>s\<bar> \<le> 10 ^ 12"
      using assms(11) by blast
    then have s: "\<bar>s / 10\<bar> \<le> 100000000000"
      by simp
    then have "\<bar>s / 10\<bar> < 2 ^ 52"
      unfolding p52 by linarith
    then have "\<bar>fl (s / 10) - s / 10\<bar> \<le> 1 / 4"
      by (rule fl_error_small)
    then have "\<bar>fl (s / 10)\<bar> \<le> 100000000000 + 1 / 4"
      using s by linarith
    then show ?thesis
      by (simp only: v1_def Some fdiv_def option.case)
  qed
  have c1: "\<not> c1 \<Longrightarrow> v1 = 0"
    by (auto simp add: c1_def v1_def fdiv_def split: option.splits)
  have v2: "fmul 4 (float_of_int (snd (F q))) = v2 q" if "q = p \<or> q = p'" for q
  proof -
    have b: "0 \<le> snd (F q)" "snd (F q) \<le> 10 ^ 6"
      using mb [OF that] by simp_all
    then have "fl (of_int (snd (F q))) = of_int (snd (F q))"
      by (intro fl_of_int) simp
    moreover have "fl (of_int (4 * snd (F q))) = of_int (4 * snd (F q))"
      using b by (intro fl_of_int) simp
    ultimately show ?thesis
      by (simp add: fmul_def float_of_int_def v2_def)
  qed
  have v2b: "0 \<le> v2 q" "v2 q \<le> 4000000" if "q = p \<or> q = p'" for q
  proof -
    have "(of_int 0 :: rat) \<le> of_int (snd (F q))"
      and "(of_int (snd (F q)) :: rat) \<le> of_int 1000000"
      using mb [OF that] by (simp_all only: of_int_le_iff) simp_all
    then show "0 \<le> v2 q" and "v2 q \<le> 4000000"
      by (simp_all add: v2_def)
  qed
  have v2m: "v2 p \<le> v2 p'"
    using m by (simp add: v2_def)
  have "0 \<le> v3 \<and> v3 \<le> 10"
  proof (cases age)
    case None
    then show ?thesis
      by (simp add: v3_def)
  next
    case (Some a)
    then have "0 \<le> a"
      by (auto simp add: age_def split: option.splits if_splits)
    moreover have "30 \<le> max recency_window 30"
      by simp
    ultimately show ?thesis
      unfolding v3_def Some option.case by (intro conjI recency_bounds)
  qed
  then have v3: "0 \<le> v3" "v3 \<le> 10"
    by simp_all
  have c3: "\<not> age \<noteq> None \<Longrightarrow> v3 = 0"
    by (simp add: v3_def)
  have e1: "\<bar>x1 q - (fst (F q) + v1)\<bar> \<le> 1 / 4" if "q = p \<or> q = p'" for q
  proof -
    have "\<bar>fst (F q) + v1\<bar> < 2 ^ 52"
      unfolding p52 using x0b [OF that] v1 by linarith
    then show ?thesis
      unfolding x1_def using c1 by (rule opt_fadd_error)
  qed
  have e2: "\<bar>x2 q - (x1 q + v2 q)\<bar> \<le> 1 / 4" if "q = p \<or> q = p'" for q
  proof -
    have "\<bar>x1 q + v2 q\<bar> < 2 ^ 52"
      unfolding p52 using x0b [OF that] v1 v2b [OF that] e1 [OF that] by linarith
    moreover have "\<not> snd (F q) \<noteq> 0 \<Longrightarrow> v2 q = 0"
      by (simp add: v2_def)
    ultimately show ?thesis
      unfolding x2_def by (rule opt_fadd_error)
  qed
  have e3: "\<bar>x3 q - (x2 q + v3)\<bar> \<le> 1 / 4" if "q = p \<or> q = p'" for q
  proof -
    have "\<bar>x2 q + v3\<bar> < 2 ^ 52"
      unfolding p52 using x0b [OF that] v1 v2b [OF that] v3 e1 [OF that] e2 [OF that]
      by linarith
    then show ?thesis
      unfolding x3_def using c3 by (rule opt_fadd_error)
  qed
  have b3: "\<bar>x3 q\<bar> \<le> 2 ^ 51" if "q = p \<or> q = p'" for q
    unfolding p51 using x0b [OF that] v1 v2b [OF that] v3 e1 [OF that] e2 [OF that] e3 [OF that]
    by linarith
  have isp: "p = p \<or> p = p'" and isp': "p' = p \<or> p' = p'"
    by simp_all
  have gap3: "x3 p + 1 \<le> x3 p'"
    using gap0 v2m e1 [OF isp] e1 [OF isp'] e2 [OF isp] e2 [OF isp'] e3 [OF isp] e3 [OF isp']
    by linarith
  have form: "fst (compute_relevance clock q ks recency_window reference) = round2 (x3 q)"
    if "q = p \<or> q = p'" for q
  proof -
    have s: "source_score q = source_score p" and d: "published q = published p"
      using that assms(1,2) by auto
    show ?thesis
      using v2 [OF that]
      by (simp add: compute_relevance_def Let_def split_beta s d now_def ti_def tx_def F_def
          x3_def x2_def x1_def v3_def v1_def c1_def age_def split: option.splits)
  qed
  have "round2 (x3 p) < round2 (x3 p')"
    using gap3 b3 [OF isp] b3 [OF isp'] by (rule round2_strict)
  then show ?thesis
    by (simp only: form [OF isp] form [OF isp'])
qed

theorem more_hits_higher_score_witness:
  "''gut'' \<in> set [''gut''] \<and> strip (lower ''gut'') \<noteq> []
   \<and> title_hits (gut_paper\<lparr>title := ''Gut'', source_score := Some 20\<rparr>) ''gut'' = 1
   \<and> title_hits (gut_paper\<lparr>title := ''Gut gut'', source_score := Some 20\<rparr>) ''gut'' = 2
   \<and> body_hits (gut_paper\<lparr>title := ''Gut'', source_score := Some 20\<rparr>) ''gut'' = 1
   \<and> body_hits (gut_paper\<lparr>title := ''Gut gut'', source_score := Some 20\<rparr>) ''gut'' = 2
   \<and> length [''gut''] \<le> 10 ^ 6 \<and> \<bar>20 :: rat\<bar> \<le> 10 ^ 12
   \<and> fst (compute_relevance 0 (gut_paper\<lparr>title := ''Gut'', source_score := Some 20\<rparr>)
            [''gut''] 30 None)
       < fst (compute_relevance 0 (gut_paper\<lparr>title := ''Gut gut'', source_score := Some 20\<rparr>)
            [''gut''] 30 None)"
proof -
  have n: "strip (lower ''gut'') = ''gut''"
    by code_simp
  have t: "title_hits (gut_paper\<lparr>title := ''Gut'', source_score := Some 20\<rparr>) ''gut'' = 1"
    "title_hits (gut_paper\<lparr>title := ''Gut gut'', source_score := Some 20\<rparr>) ''gut'' = 2"
    unfolding title_hits_def gut_paper_def by code_simp+
  have b: "body_hits (gut_paper\<lparr>title := ''Gut'', source_score := Some 20\<rparr>) ''gut'' = 1"
    "body_hits (gut_paper\<lparr>title := ''Gut gut'', source_score := Some 20\<rparr>) ''gut'' = 2"
    unfolding body_hits_def gut_paper_def by code_simp+
  have "fst (compute_relevance 0 (gut_paper\<lparr>title := ''Gut'', source_score := Some 20\<rparr>)
            [''gut''] 30 None)
       < fst (compute_relevance 0 (gut_paper\<lparr>title := ''Gut gut'', source_score := Some 20\<rparr>)
            [''gut''] 30 None)"
    using n t b
    by (intro more_hits_higher_score [where k = "''gut''"]) (simp_all add: gut_paper_def)
  then show ?thesis
    using n t b by simp
qed

subsection \<open>Buckets\<close>

lemma foldl_bucket_append:
  "foldl (bucket_append h t) bs papers level =
     (if filter (\<lambda>p. coverage_level (h p) t = level) papers = [] then bs level
      else Some ((case bs level of Some b \<Rightarrow> b | None \<Rightarrow> [])
                   @ filter (\<lambda>p. coverage_level (h p) t = level) papers))"
proof (induction papers arbitrary: bs)
  case Nil
  then show ?case by simp
next
  case (Cons p ps)
  show ?case
    by (simp add: Cons.IH) (simp add: bucket_append_def Let_def)
qed

lemma bucket_by_coverage_eq:
  "bucket_by_coverage h papers t level =
     (if level \<in> set levels \<and> filter (\<lambda>p. coverage_level (h p) t = level) papers \<noteq> []
      then Some (filter (\<lambda>p. coverage_level (h p) t = level) papers) else None)"
  by (auto simp add: bucket_by_coverage_def foldl_bucket_append levels_def Let_def
      split: list.splits)

lemma bucket_members:
  "bucket_by_coverage h papers t level = Some b
     \<Longrightarrow> b = filter (\<lambda>p. coverage_level (h p) t = level) papers \<and> b \<noteq> []"
  by (simp add: bucket_by_coverage_eq split: if_splits)

lemma bucket_member_level:
  "bucket_by_coverage h papers t level = Some b \<Longrightarrow> x \<in> set b
     \<Longrightarrow> coverage_level (h x) t = level \<and> x \<in> set papers"
  using bucket_members [of h papers t level b] by simp

subsection \<open>Seeding\<close>

lemma levels_distinct: "distinct levels"
  by (simp add: levels_def)

lemma seed_pick_unfold:
  "seed_pick m tb sel l =
     (case tb l of
        Some (x # rest) \<Rightarrow> if int (length sel) < m then sel @ [x] else sel
      | _ \<Rightarrow> sel)"
  by (simp add: seed_pick_def seed_step_def split: option.splits list.splits)

text \<open>
  Each level is visited once, so a bucket that was popped is not read again: the seeds can
  be read off the buckets as they were before the loop.
\<close>

lemma seed_step_eq:
  "seed_step m (tb, sel) l =
     ((case tb l of Some (x # rest) \<Rightarrow> if int (length sel) < m then tb(l \<mapsto> rest) else tb
       | _ \<Rightarrow> tb), seed_pick m tb sel l)"
  by (simp add: seed_step_def seed_pick_def split: option.splits list.splits)

lemma snd_foldl_seed_step:
  "distinct ls \<Longrightarrow> \<forall>l\<in>set ls. tb l = tb0 l
     \<Longrightarrow> snd (foldl (seed_step m) (tb, sel) ls) = foldl (seed_pick m tb0) sel ls"
proof (induction ls arbitrary: tb sel)
  case Nil
  then show ?case by simp
next
  case (Cons a ls)
  define tb1 where "tb1 = fst (seed_step m (tb, sel) a)"
  have step: "seed_step m (tb, sel) a = (tb1, seed_pick m tb sel a)"
    by (simp add: tb1_def seed_step_eq)
  have tb1: "\<forall>l. l \<noteq> a \<longrightarrow> tb1 l = tb l"
    by (simp add: tb1_def seed_step_eq split: option.splits list.splits)
  have "distinct ls"
    using Cons.prems by simp
  moreover have "\<forall>l\<in>set ls. tb1 l = tb0 l"
    using Cons.prems tb1 by auto
  ultimately have "snd (foldl (seed_step m) (tb1, seed_pick m tb sel a) ls)
      = foldl (seed_pick m tb0) (seed_pick m tb sel a) ls"
    by (rule Cons.IH)
  moreover have "seed_pick m tb sel a = seed_pick m tb0 sel a"
    using Cons.prems by (simp add: seed_pick_unfold)
  ultimately show ?case
    by (simp add: step)
qed

lemma seed_pick_cases:
  "seed_pick m tb sel l = sel
   \<or> (\<exists>x rest. tb l = Some (x # rest) \<and> int (length sel) < m \<and> seed_pick m tb sel l = sel @ [x])"
  by (simp add: seed_pick_unfold split: option.splits list.splits)

lemma foldl_seed_pick_prefix: "\<exists>xs. foldl (seed_pick m tb) sel ls = sel @ xs"
proof (induction ls arbitrary: sel)
  case Nil
  then show ?case by simp
next
  case (Cons a ls)
  obtain xs where "foldl (seed_pick m tb) (seed_pick m tb sel a) ls = seed_pick m tb sel a @ xs"
    using Cons.IH by blast
  then show ?case
    using seed_pick_cases [of m tb sel a] by auto
qed

lemma foldl_seed_pick_length:
  "int (length (foldl (seed_pick m tb) sel ls)) \<le> max m (int (length sel))"
proof (induction ls arbitrary: sel)
  case Nil
  then show ?case by simp
next
  case (Cons a ls)
  have "int (length (seed_pick m tb sel a)) \<le> max m (int (length sel))"
    using seed_pick_cases [of m tb sel a] by auto
  then show ?case
    using Cons.IH [of "seed_pick m tb sel a"] by simp
qed

lemma foldl_seed_pick_set:
  "x \<in> set (foldl (seed_pick m tb) sel ls)
     \<Longrightarrow> x \<in> set sel \<or> (\<exists>l\<in>set ls. \<exists>b. tb l = Some b \<and> x \<in> set b)"
proof (induction ls arbitrary: sel)
  case Nil
  then show ?case by simp
next
  case (Cons a ls)
  from Cons.prems have "x \<in> set (foldl (seed_pick m tb) (seed_pick m tb sel a) ls)"
    by simp
  then have "x \<in> set (seed_pick m tb sel a) \<or> (\<exists>l\<in>set ls. \<exists>b. tb l = Some b \<and> x \<in> set b)"
    by (rule Cons.IH)
  then show ?case
    using seed_pick_cases [of m tb sel a] by auto
qed

lemma foldl_seed_pick_distinct:
  assumes "\<forall>l b. tb l = Some b \<longrightarrow> (\<forall>x\<in>set b. lv x = l)"
    and "distinct ls" and "distinct sel" and "\<forall>x\<in>set sel. lv x \<notin> set ls"
  shows "distinct (foldl (seed_pick m tb) sel ls)"
  using assms(2-)
proof (induction ls arbitrary: sel)
  case Nil
  then show ?case by simp
next
  case (Cons a ls)
  have d: "distinct (seed_pick m tb sel a)"
    and s: "\<forall>x\<in>set (seed_pick m tb sel a). lv x \<notin> set ls"
  proof -
    consider "seed_pick m tb sel a = sel"
      | x rest where "tb a = Some (x # rest)" and "seed_pick m tb sel a = sel @ [x]"
      using seed_pick_cases [of m tb sel a] by blast
    then have "distinct (seed_pick m tb sel a)
        \<and> (\<forall>x\<in>set (seed_pick m tb sel a). lv x \<notin> set ls)"
    proof cases
      case 1
      then show ?thesis using Cons.prems by simp
    next
      case 2
      have "lv x = a"
        using assms(1) 2(1) by simp
      moreover have "a \<notin> set ls"
        using Cons.prems(1) by simp
      moreover have "x \<notin> set sel"
        using Cons.prems(3) \<open>lv x = a\<close> by auto
      ultimately show ?thesis
        using 2(2) Cons.prems by simp
    qed
    then show "distinct (seed_pick m tb sel a)"
      and "\<forall>x\<in>set (seed_pick m tb sel a). lv x \<notin> set ls"
      by simp_all
  qed
  have "distinct ls"
    using Cons.prems(1) by simp
  then have "distinct (foldl (seed_pick m tb) (seed_pick m tb sel a) ls)"
    using d s by (rule Cons.IH)
  then show ?case by simp
qed

lemma foldl_seed_pick_head:
  "int (length sel) + int (length ls) \<le> m \<Longrightarrow> l \<in> set ls \<Longrightarrow> tb l = Some (x # rest)
     \<Longrightarrow> x \<in> set (foldl (seed_pick m tb) sel ls)"
proof (induction ls arbitrary: sel)
  case Nil
  then show ?case by simp
next
  case (Cons a ls)
  have len: "int (length (seed_pick m tb sel a)) + int (length ls) \<le> m"
    using seed_pick_cases [of m tb sel a] Cons.prems(1) by auto
  show ?case
  proof (cases "l = a")
    case True
    then have "seed_pick m tb sel a = sel @ [x]"
      using Cons.prems by (simp add: seed_pick_unfold)
    moreover obtain xs where
      "foldl (seed_pick m tb) (seed_pick m tb sel a) ls = seed_pick m tb sel a @ xs"
      using foldl_seed_pick_prefix by blast
    ultimately show ?thesis by simp
  next
    case False
    then have "l \<in> set ls" using Cons.prems by simp
    then show ?thesis
      using Cons.IH [OF len _ Cons.prems(3)] by simp
  qed
qed

subsection \<open>Filling\<close>

lemma fill_prefix: "\<exists>ys. fill m ordered (sel, seen) = sel @ ys"
proof (induction ordered arbitrary: sel seen)
  case Nil
  then show ?case by simp
next
  case (Cons p ps)
  obtain ys where "fill m ps (sel @ [p], insert p seen) = (sel @ [p]) @ ys"
    using Cons.IH by blast
  moreover obtain zs where "fill m ps (sel, seen) = sel @ zs"
    using Cons.IH by blast
  ultimately show ?case by simp
qed

lemma fill_length: "int (length (fill m ordered (sel, seen))) \<le> max m (int (length sel))"
proof (induction ordered arbitrary: sel seen)
  case Nil
  then show ?case by simp
next
  case (Cons p ps)
  show ?case
    using Cons.IH [of sel seen] Cons.IH [of "sel @ [p]" "insert p seen"] by auto
qed

lemma fill_set: "set (fill m ordered (sel, seen)) \<subseteq> set sel \<union> set ordered"
proof (induction ordered arbitrary: sel seen)
  case Nil
  then show ?case by simp
next
  case (Cons p ps)
  show ?case
    using Cons.IH [of sel seen] Cons.IH [of "sel @ [p]" "insert p seen"] by auto
qed

lemma fill_distinct:
  "distinct sel \<Longrightarrow> seen = set sel \<Longrightarrow> distinct (fill m ordered (sel, seen))"
proof (induction ordered arbitrary: sel seen)
  case Nil
  then show ?case by simp
next
  case (Cons p ps)
  show ?case
  proof (cases "p \<in> seen")
    case True
    then show ?thesis using Cons.IH [of sel seen] Cons.prems by simp
  next
    case False
    then have "distinct (sel @ [p])" and "insert p seen = set (sel @ [p])"
      using Cons.prems by auto
    then have "distinct (fill m ps (sel @ [p], insert p seen))"
      by (rule Cons.IH)
    then show ?thesis using False Cons.prems by simp
  qed
qed

subsection \<open>Selection\<close>

lemma select_papers_all:
  "select_papers ordered cb ALL_COVERAGE m =
     fill m ordered (foldl (seed_pick m cb) [] levels, set (foldl (seed_pick m cb) [] levels))"
proof -
  have "snd (foldl (seed_step m) (cb, []) levels) = foldl (seed_pick m cb) [] levels"
    by (rule snd_foldl_seed_step) (simp_all add: levels_distinct)
  then show ?thesis
    by (simp add: select_papers_def split_beta)
qed

lemma set_sort_papers: "set (sort_papers h papers strategy) = set papers"
  by (cases strategy) (simp_all add: sort_papers_def)

lemma distinct_sort_papers: "distinct (sort_papers h papers strategy) = distinct papers"
  by (cases strategy) (simp_all add: sort_papers_def)

lemma slice_to_set: "set (slice_to xs n) \<subseteq> set xs"
  by (auto simp add: slice_to_def dest: in_set_takeD)

lemma slice_to_length: "0 \<le> n \<Longrightarrow> int (length (slice_to xs n)) \<le> n"
  by (simp add: slice_to_def)

lemma slice_to_distinct: "distinct xs \<Longrightarrow> distinct (slice_to xs n)"
  by (simp add: slice_to_def)

lemma rank_and_select_length:
  assumes "0 \<le> m"
  shows "int (length (rank_and_select h papers t strategy cov m)) \<le> m"
proof (cases cov)
  case FULL
  then show ?thesis
    using assms by (simp add: rank_and_select_def select_papers_def slice_to_length Let_def)
next
  case ALL_COVERAGE
  have "int (length (foldl (seed_pick m cb) [] levels)) \<le> m" for cb
    using foldl_seed_pick_length [of m cb "[]" levels] assms by simp
  then have "int (length (fill m ordered (foldl (seed_pick m cb) [] levels, seen))) \<le> m"
    for cb ordered seen
    using fill_length [of m ordered "foldl (seed_pick m cb) [] levels" seen] by simp
  then show ?thesis
    using ALL_COVERAGE by (simp add: rank_and_select_def select_papers_all Let_def)
qed

lemma rank_and_select_subset:
  "set (rank_and_select h papers t strategy cov m) \<subseteq> set papers"
proof (cases cov)
  case FULL
  define ordered where "ordered = sort_papers h papers strategy"
  have "set (case bucket_by_coverage h ordered t ''full'' of Some b \<Rightarrow> b | None \<Rightarrow> [])
      \<subseteq> set ordered"
    by (auto simp add: bucket_by_coverage_eq)
  then show ?thesis
    using FULL slice_to_set set_sort_papers [of h papers strategy]
    by (fastforce simp add: rank_and_select_def select_papers_def ordered_def Let_def)
next
  case ALL_COVERAGE
  define ordered where "ordered = sort_papers h papers strategy"
  define cb where "cb = bucket_by_coverage h ordered t"
  define seeds where "seeds = foldl (seed_pick m cb) [] levels"
  have "set seeds \<subseteq> set ordered"
  proof
    fix x
    assume "x \<in> set seeds"
    then obtain l b where "cb l = Some b" and "x \<in> set b"
      using foldl_seed_pick_set [of x m cb "[]" levels] by (auto simp add: seeds_def)
    then show "x \<in> set ordered"
      using bucket_member_level [of h ordered t l b x] by (simp add: cb_def)
  qed
  then have "set (fill m ordered (seeds, set seeds)) \<subseteq> set ordered"
    using fill_set [of m ordered seeds "set seeds"] by auto
  then show ?thesis
    using ALL_COVERAGE set_sort_papers [of h papers strategy]
    by (simp add: rank_and_select_def select_papers_all ordered_def cb_def seeds_def Let_def)
qed

text \<open>
  Under the full-only policy the output repeats a paper only if the candidates do; under
  the diversified policy it never does.
\<close>

lemma rank_and_select_distinct:
  assumes "cov = ALL_COVERAGE \<or> distinct papers"
  shows "distinct (rank_and_select h papers t strategy cov m)"
proof (cases cov)
  case FULL
  then have "distinct (sort_papers h papers strategy)"
    using assms by (simp add: distinct_sort_papers)
  then have "distinct (case bucket_by_coverage h (sort_papers h papers strategy) t ''full'' of
                         Some b \<Rightarrow> b | None \<Rightarrow> [])"
    by (simp add: bucket_by_coverage_eq)
  then show ?thesis
    using FULL by (simp add: rank_and_select_def select_papers_def slice_to_distinct Let_def)
next
  case ALL_COVERAGE
  define ordered where "ordered = sort_papers h papers strategy"
  define cb where "cb = bucket_by_coverage h ordered t"
  define seeds where "seeds = foldl (seed_pick m cb) [] levels"
  have "\<forall>l b. cb l = Some b \<longrightarrow> (\<forall>x\<in>set b. coverage_level (h x) t = l)"
    using bucket_member_level [of h ordered t] by (simp add: cb_def)
  then have "distinct seeds"
    unfolding seeds_def
    by (rule foldl_seed_pick_distinct) (simp_all add: levels_distinct)
  then have "distinct (fill m ordered (seeds, set seeds))"
    by (rule fill_distinct) simp
  then show ?thesis
    using ALL_COVERAGE
    by (simp add: rank_and_select_def select_papers_all ordered_def cb_def seeds_def Let_def)
qed

lemma rank_and_select_tier:
  assumes "4 \<le> m" and "level \<in> set levels" and "p \<in> set papers"
    and "coverage_level (h p) t = level"
  shows "\<exists>q\<in>set (rank_and_select h papers t strategy ALL_COVERAGE m). coverage_level (h q) t = level"
proof -
  define ordered where "ordered = sort_papers h papers strategy"
  define cb where "cb = bucket_by_coverage h ordered t"
  define seeds where "seeds = foldl (seed_pick m cb) [] levels"
  define b where "b = filter (\<lambda>q. coverage_level (h q) t = level) ordered"
  have "p \<in> set ordered"
    using assms(3) by (simp add: ordered_def set_sort_papers)
  then have "p \<in> set b"
    using assms(4) by (simp add: b_def)
  then obtain x rest where b: "b = x # rest"
    by (cases b) auto
  then have "x \<in> set b" by simp
  then have x: "coverage_level (h x) t = level"
    by (simp add: b_def)
  have "cb level = Some (x # rest)"
    using assms(2) b by (simp add: cb_def bucket_by_coverage_eq b_def [symmetric])
  moreover have "int (length ([] :: ref list)) + int (length levels) \<le> m"
    using assms(1) by (simp add: levels_def)
  ultimately have "x \<in> set seeds"
    unfolding seeds_def using assms(2) by (intro foldl_seed_pick_head)
  moreover obtain ys where "fill m ordered (seeds, set seeds) = seeds @ ys"
    using fill_prefix by blast
  ultimately have "x \<in> set (rank_and_select h papers t strategy ALL_COVERAGE m)"
    by (simp add: rank_and_select_def select_papers_all ordered_def cb_def seeds_def Let_def)
  then show ?thesis
    using x by blast
qed

text \<open>
  C1: for every list of candidates, every sort strategy and every limit of at least 1,
  the selection returns at most \<open>limit\<close> papers; and under the diversified policy, if
  each of the four levels holds at least one candidate and the limit is at least 4, the
  selection holds at least one paper of each level.
\<close>

theorem selection_bound_and_tiers:
  "(1 \<le> limit \<longrightarrow> int (length (rank_and_select h papers t strategy cov limit)) \<le> limit)
   \<and> (4 \<le> limit
        \<and> (\<forall>level\<in>{''full'', ''near'', ''partial'', ''single''}.
              \<exists>p\<in>set papers. coverage_level (h p) t = level)
      \<longrightarrow> (\<forall>level\<in>{''full'', ''near'', ''partial'', ''single''}.
              \<exists>p\<in>set (rank_and_select h papers t strategy ALL_COVERAGE limit).
                coverage_level (h p) t = level))"
proof (intro conjI impI ballI)
  assume "1 \<le> limit"
  then show "int (length (rank_and_select h papers t strategy cov limit)) \<le> limit"
    by (simp add: rank_and_select_length)
next
  fix level
  assume a: "4 \<le> limit \<and> (\<forall>level\<in>{''full'', ''near'', ''partial'', ''single''}.
              \<exists>p\<in>set papers. coverage_level (h p) t = level)"
    and l: "level \<in> {''full'', ''near'', ''partial'', ''single''}"
  then obtain p where "p \<in> set papers" and "coverage_level (h p) t = level"
    by blast
  moreover have "level \<in> set levels"
    using l by (simp add: levels_def)
  ultimately show "\<exists>p\<in>set (rank_and_select h papers t strategy ALL_COVERAGE limit).
      coverage_level (h p) t = level"
    using a by (intro rank_and_select_tier) simp_all
qed

theorem selection_bound_and_tiers_witness:
  "(1 :: int) \<le> 4 \<and> (4 :: int) \<le> 4
   \<and> coverage_level (tier_store 0) 4 = ''full'' \<and> coverage_level (tier_store 1) 4 = ''near''
   \<and> coverage_level (tier_store 2) 4 = ''partial'' \<and> coverage_level (tier_store 3) 4 = ''single''
   \<and> rank_and_select tier_store [3, 1, 0, 2] 4 SCORE ALL_COVERAGE 4 = [0, 1, 2, 3]
   \<and> int (length (rank_and_select tier_store [3, 1, 0, 2] 4 SCORE ALL_COVERAGE 4)) \<le> 4
   \<and> (\<exists>p\<in>set (rank_and_select tier_store [3, 1, 0, 2] 4 SCORE ALL_COVERAGE 4).
         coverage_level (tier_store p) 4 = ''full'')
   \<and> (\<exists>p\<in>set (rank_and_select tier_store [3, 1, 0, 2] 4 SCORE ALL_COVERAGE 4).
         coverage_level (tier_store p) 4 = ''near'')
   \<and> (\<exists>p\<in>set (rank_and_select tier_store [3, 1, 0, 2] 4 SCORE ALL_COVERAGE 4).
         coverage_level (tier_store p) 4 = ''partial'')
   \<and> (\<exists>p\<in>set (rank_and_select tier_store [3, 1, 0, 2] 4 SCORE ALL_COVERAGE 4).
         coverage_level (tier_store p) 4 = ''single'')"
proof -
  have lv: "coverage_level (tier_store 0) 4 = ''full''" "coverage_level (tier_store 1) 4 = ''near''"
    "coverage_level (tier_store 2) 4 = ''partial''" "coverage_level (tier_store 3) 4 = ''single''"
    by (simp_all add: tier_store_def coverage_level_def gut_paper_def)
  have hyp: "\<forall>level\<in>{''full'', ''near'', ''partial'', ''single''}.
      \<exists>p\<in>set [3, 1, 0, 2]. coverage_level (tier_store p) 4 = level"
    using lv by simp
  have ev: "rank_and_select tier_store [3, 1, 0, 2] 4 SCORE ALL_COVERAGE 4 = [0, 1, 2, 3]"
    by code_simp
  have "\<forall>level\<in>{''full'', ''near'', ''partial'', ''single''}.
      \<exists>p\<in>set (rank_and_select tier_store [3, 1, 0, 2] 4 SCORE ALL_COVERAGE 4).
        coverage_level (tier_store p) 4 = level"
    and "int (length (rank_and_select tier_store [3, 1, 0, 2] 4 SCORE ALL_COVERAGE 4)) \<le> 4"
    using selection_bound_and_tiers [of 4 tier_store "[3, 1, 0, 2]" 4 SCORE ALL_COVERAGE] hyp
    by simp_all
  then show ?thesis
    using lv ev by simp
qed

subsection \<open>From the fetch results to the selection\<close>

lemma keep_paper_iff:
  "keep_paper days paper \<longleftrightarrow>
     url paper \<noteq> []
     \<and> (days \<le> 0 \<or> age_days paper = None \<or> (\<exists>a. age_days paper = Some a \<and> a \<le> days))
     \<and> match_count paper \<noteq> 0"
  by (auto simp add: keep_paper_def split: option.splits)

lemma radar_core_parts:
  assumes "radar_core now journal_chunks keyword_list days max_results sort_strategy
             coverage_filter = (scored, filtered, selected)"
  shows "scored = map (\<lambda>paper. snd (compute_relevance now paper keyword_list
                                     (if days > 0 then days else 0) (Some now)))
                    (fst (aggregate journal_chunks))"
    and "filtered = filter (\<lambda>p. keep_paper days (scored ! p)) [0..<length scored]"
    and "selected = rank_and_select (store_of scored) filtered (int (length keyword_list))
                      sort_strategy coverage_filter max_results"
  using assms by (auto simp add: radar_core_def Let_def split_beta)

lemma radar_core_eqI:
  assumes "aggregate journal_chunks = (papers, empty_journals)"
    and "map (\<lambda>paper. snd (compute_relevance now paper keyword_list
                              (if days > 0 then days else 0) (Some now))) papers = scored"
    and "filter (\<lambda>p. keep_paper days (scored ! p)) [0..<length scored] = filtered"
    and "rank_and_select (store_of scored) filtered (int (length keyword_list))
           sort_strategy coverage_filter max_results = selected"
  shows "radar_core now journal_chunks keyword_list days max_results sort_strategy
           coverage_filter = (scored, filtered, selected)"
proof -
  have "length scored = length papers"
    using assms(2) by auto
  then show ?thesis
    unfolding radar_core_def assms(1) using assms(2-) by (simp add: Let_def)
qed

lemma radar_core_example:
  "radar_core 0 example_chunks [''gut''] 30 3 SCORE ALL_COVERAGE
     = (example_scored, [1], [1])"
proof (rule radar_core_eqI)
  show "aggregate example_chunks
      = ([gut_paper\<lparr>title := ''Soil''\<rparr>, gut_paper\<lparr>title := ''Gut''\<rparr>], [''Nature''])"
    by (simp add: aggregate_def example_chunks_def)
  have s0: "snd (compute_relevance 0 (gut_paper\<lparr>title := ''Soil''\<rparr>) [''gut''] 30 (Some 0))
      = gut_paper\<lparr>title := ''Soil''\<rparr>"
    by (rule example_scored_values)
  have s1: "snd (compute_relevance 0 (gut_paper\<lparr>title := ''Gut''\<rparr>) [''gut''] 30 (Some 0))
      = gut_paper\<lparr>title := ''Gut'', relevance := 25 / 2, match_count := 1\<rparr>"
    by (rule example_scored_values)
  show "map (\<lambda>paper. snd (compute_relevance 0 paper [''gut''] (if (0 :: int) < 30 then 30 else 0)
                             (Some 0)))
          [gut_paper\<lparr>title := ''Soil''\<rparr>, gut_paper\<lparr>title := ''Gut''\<rparr>] = example_scored"
    by (simp add: s0 s1 example_scored_def)
  show "filter (\<lambda>p. keep_paper 30 (example_scored ! p)) [0..<length example_scored] = [1]"
    by code_simp
  show "rank_and_select (store_of example_scored) [1] (int (length [''gut'']))
          SCORE ALL_COVERAGE 3 = [1]"
    by code_simp
qed

text \<open>
  C4: after scoring, the filter keeps an article if and only if its url is not empty,
  the day window is not positive or the age is unknown or the age is at most the window,
  and its match count is at least 1. In particular no article is dropped for its age
  when \<open>days = 0\<close>, and an article with match count 0 is neither among the filtered
  papers, which are what is classified, nor among the selected ones.
\<close>

theorem post_fetch_filter:
  assumes "radar_core now journal_chunks keyword_list days max_results sort_strategy
             coverage_filter = (scored, filtered, selected)"
    and "p < length scored"
  shows "(p \<in> set filtered \<longleftrightarrow>
            url (scored ! p) \<noteq> []
            \<and> (days \<le> 0 \<or> age_days (scored ! p) = None
                 \<or> (\<exists>a. age_days (scored ! p) = Some a \<and> a \<le> days))
            \<and> match_count (scored ! p) \<ge> 1)
         \<and> (days = 0 \<longrightarrow>
               (p \<in> set filtered \<longleftrightarrow> url (scored ! p) \<noteq> [] \<and> match_count (scored ! p) \<ge> 1))
         \<and> (match_count (scored ! p) = 0 \<longrightarrow> p \<notin> set filtered \<and> p \<notin> set selected)"
proof -
  note parts = radar_core_parts [OF assms(1)]
  have "0 \<le> match_count (scored ! p)"
    using assms(2) by (simp add: parts(1) compute_relevance_match_count)
  then have mc: "match_count (scored ! p) \<noteq> 0 \<longleftrightarrow> match_count (scored ! p) \<ge> 1"
    by arith
  have f: "p \<in> set filtered \<longleftrightarrow> keep_paper days (scored ! p)"
    using assms(2) by (subst parts(2)) simp
  have s: "set selected \<subseteq> set filtered"
    by (subst parts(3)) (rule rank_and_select_subset)
  have iff: "p \<in> set filtered \<longleftrightarrow>
       url (scored ! p) \<noteq> []
       \<and> (days \<le> 0 \<or> age_days (scored ! p) = None
            \<or> (\<exists>a. age_days (scored ! p) = Some a \<and> a \<le> days))
       \<and> match_count (scored ! p) \<ge> 1"
    using f mc by (simp add: keep_paper_iff)
  show ?thesis
    using iff s by auto
qed

theorem post_fetch_filter_witness:
  "radar_core 0 example_chunks [''gut''] 30 3 SCORE ALL_COVERAGE = (example_scored, [1], [1])
   \<and> (0 :: nat) < length example_scored
   \<and> match_count (example_scored ! 0) = 0 \<and> 0 \<notin> set [1 :: nat]
   \<and> (1 :: nat) < length example_scored
   \<and> url (example_scored ! 1) \<noteq> [] \<and> age_days (example_scored ! 1) = None
   \<and> match_count (example_scored ! 1) \<ge> 1 \<and> 1 \<in> set [1 :: nat]"
proof -
  have len: "(0 :: nat) < length example_scored" "(1 :: nat) < length example_scored"
    by (simp_all add: example_scored_def)
  show ?thesis
    using post_fetch_filter [OF radar_core_example len(1)]
      post_fetch_filter [OF radar_core_example len(2)] radar_core_example len
    by (simp add: example_scored_def gut_paper_def)
qed

text \<open>
  C10: for every list of fetched papers, sort strategy, coverage policy and limit, every
  selected paper is one of the filtered candidates and no paper is selected twice, under
  the full-only and under the diversified policy.
\<close>

theorem selected_from_filtered_distinct:
  assumes "radar_core now journal_chunks keyword_list days max_results sort_strategy
             coverage_filter = (scored, filtered, selected)"
  shows "set selected \<subseteq> set filtered \<and> distinct selected"
proof -
  note parts = radar_core_parts [OF assms(1)]
  have "distinct filtered"
    by (subst parts(2)) simp
  then have "distinct selected"
    by (subst parts(3)) (simp add: rank_and_select_distinct)
  moreover have "set selected \<subseteq> set filtered"
    by (subst parts(3)) (rule rank_and_select_subset)
  ultimately show ?thesis by simp
qed

theorem selected_from_filtered_distinct_witness:
  "radar_core 0 example_chunks [''gut''] 30 3 SCORE ALL_COVERAGE = (example_scored, [1], [1])
   \<and> set [1 :: nat] \<subseteq> set [1] \<and> distinct [1 :: nat]"
  using selected_from_filtered_distinct [OF radar_core_example] radar_core_example
  by simp

subsection \<open>Ordering\<close>

lemma sort_key_strict_order:
  fixes f :: "'a \<Rightarrow> 'k :: linorder"
  assumes "i < length xs" and "j < length xs"
    and "f (sort_key f xs ! i) < f (sort_key f xs ! j)"
  shows "i < j"
proof (rule ccontr)
  assume "\<not> i < j"
  then have "j \<le> i" by simp
  have "sorted (map f (sort_key f xs))"
    by (rule sorted_sort_key)
  then have "map f (sort_key f xs) ! j \<le> map f (sort_key f xs) ! i"
    using \<open>j \<le> i\<close> assms(1) by (intro sorted_nth_mono) simp_all
  then have "f (sort_key f xs ! j) \<le> f (sort_key f xs ! i)"
    using assms(1,2) by simp
  then show False
    using assms(3) by simp
qed

text \<open>
  C5, as stated: under the ordering by score, of two scored articles of equal relevance
  the one of known age comes before the one of unknown age. An unknown age counts as
  \<open>10 ^ 6\<close> days, so the claim fails for a known age above that: scored at a reference
  time 1000001 days after its publication, the dated paper comes after the undated one.
\<close>

theorem known_age_before_unknown_counterexample:
  "relevance (old_store 1) = relevance (old_store 0)
   \<and> age_days (old_store 1) = Some 1000001 \<and> age_days (old_store 0) = None
   \<and> sort_papers old_store [1, 0] SCORE = [0, 1]"
proof -
  have p0: "old_store 0 = gut_paper\<lparr>title := ''Gut'', relevance := 25 / 2, match_count := 1\<rparr>"
    by (rule old_store_values)
  have p1: "old_store (Suc 0) = gut_paper\<lparr>title := ''Gut'', published := Some 0, relevance := 25 / 2,
      age_days := Some 1000001, match_count := 1\<rparr>"
    by (rule old_store_values)
  have "sort_papers old_store [1, 0] SCORE = [0, 1]"
    by (simp add: sort_papers_def p0 p1 age_value_def gut_paper_def)
  then show ?thesis
    by (simp add: p0 p1 gut_paper_def)
qed

text \<open>
  C5, amended: under the ordering by score, of two scored articles of equal relevance, one
  of a known age below \<open>10 ^ 6\<close> days and one of unknown age, the one of known age comes
  first in the sorted output.
\<close>

theorem known_age_before_unknown:
  assumes "i < length papers" and "j < length papers"
    and "relevance (h (sort_papers h papers SCORE ! i)) = relevance (h (sort_papers h papers SCORE ! j))"
    and "age_days (h (sort_papers h papers SCORE ! i)) = Some a" and "a < 10 ^ 6"
    and "age_days (h (sort_papers h papers SCORE ! j)) = None"
  shows "i < j"
proof -
  define f where "f = (\<lambda>p. (- relevance (h p), age_value (h p), lower (title (h p))))"
  have out: "sort_papers h papers SCORE = sort_key f papers"
    by (simp add: sort_papers_def f_def)
  have "f (sort_key f papers ! i) < f (sort_key f papers ! j)"
    using assms(3-) unfolding out by (simp add: f_def age_value_def less_prod_def)
  then show ?thesis
    using assms(1,2) by (intro sort_key_strict_order [of i papers j f])
qed

theorem known_age_before_unknown_witness:
  "sort_papers age_store [0, 1] SCORE = [1, 0]
   \<and> relevance (age_store 1) = relevance (age_store 0)
   \<and> age_days (age_store 1) = Some 5 \<and> (5 :: int) < 10 ^ 6 \<and> age_days (age_store 0) = None
   \<and> (0 :: nat) < 1"
proof -
  have s: "sort_papers age_store [0, 1] SCORE = [1, 0]"
    by (simp add: sort_papers_def age_store_def age_value_def gut_paper_def)
  have "(0 :: nat) < 1"
    using known_age_before_unknown [of 0 "[0, 1]" 1 age_store 5]
    by (simp add: s)
  then show ?thesis
    using s by (simp add: age_store_def gut_paper_def)
qed

subsection \<open>Query building\<close>

lemma foldl_quoted_terms:
  "foldl (\<lambda>acc keyword.
              let term = strip keyword
              in if term = [] then acc
                 else if CHR '' '' \<in> set term then acc @ [[CHR 0x22] @ term @ [CHR 0x22]]
                 else acc @ [term]) acc ks
   = acc @ map (\<lambda>k. if CHR '' '' \<in> set (strip k) then [CHR 0x22] @ strip k @ [CHR 0x22]
                       else strip k)
             (filter (\<lambda>k. strip k \<noteq> []) ks)"
  by (induction ks arbitrary: acc) (simp_all add: Let_def)

lemma quoted_terms_eq:
  "quoted_terms ks =
     map (\<lambda>k. if CHR '' '' \<in> set (strip k) then [CHR 0x22] @ strip k @ [CHR 0x22] else strip k)
       (filter (\<lambda>k. strip k \<noteq> []) ks)"
  by (simp add: quoted_terms_def foldl_quoted_terms)

lemma quoted_terms_empty: "quoted_terms ks = [] \<longleftrightarrow> (\<forall>k\<in>set ks. strip k = [])"
  by (simp add: quoted_terms_eq filter_empty_conv)

lemma date_minus_days_ok:
  "0 < days \<Longrightarrow> days < today \<Longrightarrow> today \<le> 3652059
     \<Longrightarrow> date_minus_days today days = Inr (today - days)"
  by (simp add: date_minus_days_def)

text \<open>
  C7, as stated: a keyword that is not empty after trimming is put in double quotes if it
  holds any whitespace character, a tab for instance. The source tests for the space
  character only: a keyword with a tab between two letters is a bare term of the query.
\<close>

theorem quoted_terms_tab_counterexample:
  "strip tab_keyword = tab_keyword \<and> strip tab_keyword \<noteq> []
   \<and> isspace (CHR 0x09) \<and> CHR 0x09 \<in> set (strip tab_keyword)
   \<and> quoted_terms [tab_keyword] = [tab_keyword]
   \<and> build_query 739926 cell_journal [tab_keyword] 0
       = Inr (tab_keyword @ '' JOURNAL:'' @ [CHR 0x22] @ ''Cell'' @ [CHR 0x22])"
proof -
  have s: "strip tab_keyword = tab_keyword"
    unfolding tab_keyword_def by code_simp
  have i: "isspace (CHR 0x09)"
    by code_simp
  have q: "quoted_terms [tab_keyword] = [tab_keyword]"
    by (simp add: quoted_terms_eq s) (simp add: tab_keyword_def)
  show ?thesis
    using s i q by (simp add: build_query_def cell_journal_def) (simp add: tab_keyword_def)
qed

text \<open>
  C7, amended: the terms of the query are, for every keyword that is not empty after
  trimming and in the order of the keywords, the trimmed keyword in double quotes if it
  holds a space character (U+0020), and the trimmed keyword itself otherwise; the query
  starts with the only term, or with the terms joined by \<open>OR\<close> in brackets, followed
  by the clause of the journal.
\<close>

theorem query_terms_quoting:
  "quoted_terms ks =
     map (\<lambda>k. if CHR '' '' \<in> set (strip k) then [CHR 0x22] @ strip k @ [CHR 0x22] else strip k)
       (filter (\<lambda>k. strip k \<noteq> []) ks)
   \<and> (k \<in> set ks \<and> strip k \<noteq> [] \<longrightarrow>
        (if CHR '' '' \<in> set (strip k) then [CHR 0x22] @ strip k @ [CHR 0x22] else strip k)
          \<in> set (quoted_terms ks))
   \<and> (build_query today journal_config ks days_back = Inr q \<longrightarrow>
        (\<exists>rest. q = (if length (quoted_terms ks) = 1 then hd (quoted_terms ks)
                       else ''('' @ join '' OR '' (quoted_terms ks) @ '')'')
                      @ '' JOURNAL:'' @ [CHR 0x22] @ container_title journal_config @ [CHR 0x22]
                      @ rest))"
proof (intro conjI impI)
  show "quoted_terms ks =
     map (\<lambda>k. if CHR '' '' \<in> set (strip k) then [CHR 0x22] @ strip k @ [CHR 0x22] else strip k)
       (filter (\<lambda>k. strip k \<noteq> []) ks)"
    by (rule quoted_terms_eq)
next
  assume "k \<in> set ks \<and> strip k \<noteq> []"
  then have "k \<in> set (filter (\<lambda>k. strip k \<noteq> []) ks)"
    by simp
  then show "(if CHR '' '' \<in> set (strip k) then [CHR 0x22] @ strip k @ [CHR 0x22] else strip k)
      \<in> set (quoted_terms ks)"
    unfolding quoted_terms_eq set_map by (rule imageI)
next
  define keyword_query where "keyword_query =
    (if length (quoted_terms ks) = 1 then hd (quoted_terms ks)
     else ''('' @ join '' OR '' (quoted_terms ks) @ '')'')"
  define journal_clause where "journal_clause =
    ''JOURNAL:'' @ [CHR 0x22] @ container_title journal_config @ [CHR 0x22]"
  assume built: "build_query today journal_config ks days_back = Inr q"
  then have "\<exists>rest. q = keyword_query @ '' '' @ journal_clause @ rest"
    unfolding build_query_def Let_def keyword_query_def [symmetric] journal_clause_def [symmetric]
    by (auto split: if_splits sum.splits)
  then show "\<exists>rest. q = (if length (quoted_terms ks) = 1 then hd (quoted_terms ks)
                       else ''('' @ join '' OR '' (quoted_terms ks) @ '')'')
                      @ '' JOURNAL:'' @ [CHR 0x22] @ container_title journal_config @ [CHR 0x22]
                      @ rest"
    by (simp add: keyword_query_def journal_clause_def)
qed

theorem query_terms_quoting_witness:
  "''gut flora '' \<in> set [''gut flora '', '' '', ''soil'']
   \<and> strip ''gut flora '' = ''gut flora'' \<and> CHR '' '' \<in> set (strip ''gut flora '')
   \<and> [CHR 0x22] @ ''gut flora'' @ [CHR 0x22] \<in> set (quoted_terms [''gut flora '', '' '', ''soil''])
   \<and> quoted_terms [''gut flora '', '' '', ''soil''] = [[CHR 0x22] @ ''gut flora'' @ [CHR 0x22], ''soil'']
   \<and> build_query 739926 cell_journal [''gut flora '', '' '', ''soil''] 0
       = Inr (''('' @ [CHR 0x22] @ ''gut flora'' @ [CHR 0x22] @ '' OR soil) JOURNAL:''
              @ [CHR 0x22] @ ''Cell'' @ [CHR 0x22])"
proof -
  have s: "strip ''gut flora '' = ''gut flora''" "strip '' '' = []" "strip ''soil'' = ''soil''"
    by code_simp+
  have q: "quoted_terms [''gut flora '', '' '', ''soil'']
      = [[CHR 0x22] @ ''gut flora'' @ [CHR 0x22], ''soil'']"
    using query_terms_quoting [of "[''gut flora '', '' '', ''soil'']"] by (simp add: s)
  have m: "[CHR 0x22] @ ''gut flora'' @ [CHR 0x22] \<in> set (quoted_terms [''gut flora '', '' '', ''soil''])"
    using query_terms_quoting [of "[''gut flora '', '' '', ''soil'']" "''gut flora ''"]
    by (simp add: s)
  have b: "build_query 739926 cell_journal [''gut flora '', '' '', ''soil''] 0
       = Inr (''('' @ [CHR 0x22] @ ''gut flora'' @ [CHR 0x22] @ '' OR soil) JOURNAL:''
              @ [CHR 0x22] @ ''Cell'' @ [CHR 0x22])"
    by (simp add: build_query_def q cell_journal_def)
  show ?thesis
    using s q m b by simp
qed

text \<open>
  C8, as stated: whatever the day window, a query is returned and no error is raised when
  a keyword is not empty after trimming. A window that reaches back beyond 0001-01-01
  makes the date subtraction raise \<^verbatim>\<open>OverflowError\<close>: on 2026-11-06 (ordinal 739926), a
  window of 1000000 days does.
\<close>

theorem build_query_overflow_counterexample:
  "strip ''gut'' \<noteq> [] \<and> build_query 739926 cell_journal [''gut''] 1000000 = Inl OverflowError"
proof -
  have s: "strip ''gut'' = ''gut''"
    by code_simp
  have "quoted_terms [''gut''] = [''gut'']"
    by (simp add: quoted_terms_eq s)
  then show ?thesis
    using s by (simp add: build_query_def date_minus_days_def)
qed

text \<open>
  C8, amended: the query builder fails with \<^verbatim>\<open>ValueError\<close> (the invalid query error) if
  and only if every keyword is empty after trimming; when a keyword is not empty after
  trimming and the day window is smaller than the ordinal of the current date, it
  returns a query and raises no error.
\<close>

theorem build_query_errors:
  "((\<exists>message. build_query today journal_config ks days_back = Inl (ValueError message))
      \<longleftrightarrow> (\<forall>k\<in>set ks. strip k = []))
   \<and> ((\<exists>k\<in>set ks. strip k \<noteq> []) \<and> 1 \<le> today \<and> today \<le> 3652059 \<and> days_back < today
        \<longrightarrow> (\<exists>q. build_query today journal_config ks days_back = Inr q))"
proof (intro conjI impI)
  show "(\<exists>message. build_query today journal_config ks days_back = Inl (ValueError message))
      \<longleftrightarrow> (\<forall>k\<in>set ks. strip k = [])"
    using quoted_terms_empty [of ks]
    by (auto simp add: build_query_def Let_def date_minus_days_def split: sum.splits)
next
  assume a: "(\<exists>k\<in>set ks. strip k \<noteq> []) \<and> 1 \<le> today \<and> today \<le> 3652059 \<and> days_back < today"
  then have "quoted_terms ks \<noteq> []"
    using quoted_terms_empty [of ks] by blast
  then show "\<exists>q. build_query today journal_config ks days_back = Inr q"
    using a by (simp add: build_query_def Let_def date_minus_days_ok)
qed

theorem build_query_errors_witness:
  "strip ''gut'' \<noteq> [] \<and> (1 :: int) \<le> 739926 \<and> (739926 :: int) \<le> 3652059 \<and> (30 :: int) < 739926
   \<and> build_query 739926 cell_journal [''gut''] 30
       = Inr (''gut JOURNAL:'' @ [CHR 0x22] @ ''Cell'' @ [CHR 0x22]
              @ '' FIRST_PDATE:[2026-10-07 TO 2026-11-06]'')
   \<and> strip '' '' = []
   \<and> build_query 739926 cell_journal ['' ''] 30 = Inl (ValueError ''At least one keyword is required.'')"
proof -
  have s: "strip ''gut'' = ''gut''" "strip '' '' = []"
    by code_simp+
  have d: "isoformat 739896 = ''2026-10-07''" "isoformat 739926 = ''2026-11-06''"
    by code_simp+
  have "\<exists>q. build_query 739926 cell_journal [''gut''] 30 = Inr q"
    using build_query_errors [of 739926 cell_journal "[''gut'']" 30] by (simp add: s)
  then obtain q where q: "build_query 739926 cell_journal [''gut''] 30 = Inr q"
    by blast
  have "quoted_terms [''gut''] = [''gut'']"
    by (simp add: quoted_terms_eq s)
  then have "q = ''gut JOURNAL:'' @ [CHR 0x22] @ ''Cell'' @ [CHR 0x22]
              @ '' FIRST_PDATE:[2026-10-07 TO 2026-11-06]''"
    using q by (simp add: build_query_def date_minus_days_def d cell_journal_def)
  moreover have "quoted_terms ['' ''] = []"
    by (simp add: quoted_terms_eq s)
  then have "build_query 739926 cell_journal ['' ''] 30
      = Inl (ValueError ''At least one keyword is required.'')"
    by (simp add: build_query_def)
  ultimately show ?thesis
    using s q by simp
qed

end
